theory Spec2Isabelle
  imports Complex_Main
begin

section \<open>Data model\<close>

text \<open>
  Modelled from the spec: the class \<^verbatim>\<open>ASRDataSeg\<close> is declared outside this file.
  A fragment carries a text and two time stamps in milliseconds, the three fields that
  this file reads and the three arguments of the constructor that it calls. Texts are
  Isabelle strings, one \<^typ>\<open>char\<close> per code point (the code points U+0000 to
  U+00FF); time stamps are exact rationals.
\<close>

record ASRDataSeg =
  seg_text :: string
  start_time :: rat
  end_time :: rat

datatype error = UnboundLocalError | IndexError | RecursionError | ZeroDivisionError

text \<open>
  Modelled from the spec: the class \<^verbatim>\<open>ASRData\<close> is declared outside this file. A
  FragmentSequence is an ordered list of fragments, so \<^verbatim>\<open>ASRData(segments)\<close> is
  the list \<open>segments\<close> itself and \<^verbatim>\<open>asr_data.segments\<close> reads it back.
\<close>

type_synonym ASRData = "ASRDataSeg list"

definition SEGMENT_THRESHOLD :: int where
  "SEGMENT_THRESHOLD = 500"

definition SPLIT_RANGE :: nat where
  "SPLIT_RANGE = 30"

definition MAX_GAP :: rat where
  "MAX_GAP = 1500"

section \<open>Strings\<close>

text \<open>
  The methods of Python's \<^verbatim>\<open>str\<close> that the program calls, on the code points
  below U+0100: \<^verbatim>\<open>isspace\<close> (the separators of \<^verbatim>\<open>split()\<close> and
  \<^verbatim>\<open>strip()\<close>), \<^verbatim>\<open>lower\<close>, \<^verbatim>\<open>join\<close>, and the class \<^verbatim>\<open>\w\<close> of
  the regular expressions.
\<close>

definition isspace :: "char \<Rightarrow> bool" where
  "isspace c = (let n = (of_char c :: nat)
     in (9 \<le> n \<and> n \<le> 13) \<or> (28 \<le> n \<and> n \<le> 32) \<or> n = 133 \<or> n = 160)"

fun split_loop :: "string \<Rightarrow> string \<Rightarrow> string list" where
  "split_loop cur [] = (if cur = [] then [] else [cur])"
| "split_loop cur (c # cs) =
     (if isspace c then (if cur = [] then split_loop [] cs else cur # split_loop [] cs)
      else split_loop (cur @ [c]) cs)"

definition split :: "string \<Rightarrow> string list" where
  "split s = split_loop [] s"

definition strip :: "string \<Rightarrow> string" where
  "strip s = rev (dropWhile isspace (rev (dropWhile isspace s)))"

definition lower_char :: "char \<Rightarrow> char" where
  "lower_char c = (let n = (of_char c :: nat)
     in if (65 \<le> n \<and> n \<le> 90) \<or> (192 \<le> n \<and> n \<le> 214) \<or> (216 \<le> n \<and> n \<le> 222)
        then char_of (n + 32) else c)"

definition lower :: "string \<Rightarrow> string" where
  "lower s = map lower_char s"

fun join :: "string \<Rightarrow> string list \<Rightarrow> string" where
  "join sep [] = []"
| "join sep [x] = x"
| "join sep (x # y # ys) = x @ sep @ join sep (y # ys)"

definition is_word_char :: "char \<Rightarrow> bool" where
  "is_word_char c = (let n = (of_char c :: nat)
     in (48 \<le> n \<and> n \<le> 57) \<or> (65 \<le> n \<and> n \<le> 90) \<or> n = 95 \<or> (97 \<le> n \<and> n \<le> 122)
        \<or> n = 170 \<or> n = 178 \<or> n = 179 \<or> n = 181 \<or> n = 185 \<or> n = 186
        \<or> (188 \<le> n \<and> n \<le> 190) \<or> (192 \<le> n \<and> n \<le> 214) \<or> (216 \<le> n \<and> n \<le> 246)
        \<or> (248 \<le> n \<and> n \<le> 255))"

definition is_pure_punctuation :: "string \<Rightarrow> bool" where
  "is_pure_punctuation s = (\<not> list_ex is_word_char s)"

text \<open>
  \<^verbatim>\<open>count_words\<close>: the ten script ranges in the order of the source, each counted and
  then blanked out, and the whitespace-separated tokens of what remains.
\<close>

definition patterns :: "(int \<times> int) list" where
  "patterns =
     [(0x4e00, 0x9fff), (0x3040, 0x309f), (0x30a0, 0x30ff), (0xac00, 0xd7af),
      (0x0e00, 0x0e7f), (0x0600, 0x06ff), (0x0400, 0x04ff), (0x0590, 0x05ff),
      (0x1e00, 0x1eff), (0x3130, 0x318f)]"

definition in_pattern :: "int \<times> int \<Rightarrow> char \<Rightarrow> bool" where
  "in_pattern pattern c = (fst pattern \<le> of_char c \<and> (of_char c :: int) \<le> snd pattern)"

definition count_words_step :: "nat \<times> string \<Rightarrow> int \<times> int \<Rightarrow> nat \<times> string" where
  "count_words_step st pattern =
     (case st of (non_english_chars, remaining_text) \<Rightarrow>
        (non_english_chars + length (filter (in_pattern pattern) remaining_text),
         map (\<lambda>c. if in_pattern pattern c then CHR '' '' else c) remaining_text))"

definition count_words :: "string \<Rightarrow> nat" where
  "count_words txt =
     (case foldl count_words_step (0, txt) patterns of
        (non_english_chars, remaining_text) \<Rightarrow>
          non_english_chars + length (split (strip remaining_text)))"

definition preprocess_text :: "string \<Rightarrow> string" where
  "preprocess_text s = join '' '' (split (lower s))"

section \<open>Similarity ratio\<close>

text \<open>
  \<^verbatim>\<open>difflib.SequenceMatcher(None, a, b).ratio()\<close> of the Python standard library:
  no junk predicate, and the automatic junk heuristic, which drops from the index of
  \<open>b\<close> every element that occurs more than \<open>n div 100 + 1\<close> times when \<open>b\<close> has
  \<open>n \<ge> 200\<close> elements. The ratio is twice the number of matched elements over the
  sum of the two lengths, as an exact rational.
\<close>

definition b2j :: "string \<Rightarrow> char \<Rightarrow> nat list" where
  "b2j b elt =
     (let indices = filter (\<lambda>j. b ! j = elt) [0..<length b]
      in if 200 \<le> length b \<and> length b div 100 + 1 < length indices then [] else indices)"

text \<open>
  The inner loop of \<^verbatim>\<open>find_longest_match\<close> over the positions \<open>j\<close> of \<open>a[i]\<close>
  in \<open>b\<close>; an absent key of \<^verbatim>\<open>j2len\<close> reads as 0, also the key \<open>-1\<close>.
\<close>

fun flm_inner ::
  "(nat \<Rightarrow> nat) \<Rightarrow> nat \<Rightarrow> nat \<Rightarrow> nat \<Rightarrow> nat list
    \<Rightarrow> (nat \<Rightarrow> nat) \<times> nat \<times> nat \<times> nat \<Rightarrow> (nat \<Rightarrow> nat) \<times> nat \<times> nat \<times> nat" where
  "flm_inner j2len i blo bhi [] st = st"
| "flm_inner j2len i blo bhi (j # js) (newj2len, besti, bestj, bestsize) =
     (if j < blo then flm_inner j2len i blo bhi js (newj2len, besti, bestj, bestsize)
      else if bhi \<le> j then (newj2len, besti, bestj, bestsize)
      else
        (let k = (if j = 0 then 0 else j2len (j - 1)) + 1
         in if bestsize < k
            then flm_inner j2len i blo bhi js (newj2len(j := k), i + 1 - k, j + 1 - k, k)
            else flm_inner j2len i blo bhi js (newj2len(j := k), besti, bestj, bestsize)))"

definition flm_row ::
  "string \<Rightarrow> string \<Rightarrow> nat \<Rightarrow> nat \<Rightarrow> (nat \<Rightarrow> nat) \<times> nat \<times> nat \<times> nat \<Rightarrow> nat
    \<Rightarrow> (nat \<Rightarrow> nat) \<times> nat \<times> nat \<times> nat" where
  "flm_row a b blo bhi st i =
     (case st of (j2len, besti, bestj, bestsize) \<Rightarrow>
        flm_inner j2len i blo bhi (b2j b (a ! i)) (\<lambda>_. 0, besti, bestj, bestsize))"

function extend_left :: "string \<Rightarrow> string \<Rightarrow> nat \<Rightarrow> nat \<Rightarrow> nat \<times> nat \<times> nat \<Rightarrow> nat \<times> nat \<times> nat" where
  "extend_left a b alo blo (besti, bestj, bestsize) =
     (if alo < besti \<and> blo < bestj \<and> a ! (besti - 1) = b ! (bestj - 1)
      then extend_left a b alo blo (besti - 1, bestj - 1, bestsize + 1)
      else (besti, bestj, bestsize))"
  by pat_completeness auto
termination
  by (relation "measure (\<lambda>(a, b, alo, blo, besti, bestj, bestsize). besti)") auto

function extend_right :: "string \<Rightarrow> string \<Rightarrow> nat \<Rightarrow> nat \<Rightarrow> nat \<times> nat \<times> nat \<Rightarrow> nat \<times> nat \<times> nat" where
  "extend_right a b ahi bhi (besti, bestj, bestsize) =
     (if besti + bestsize < ahi \<and> bestj + bestsize < bhi
         \<and> a ! (besti + bestsize) = b ! (bestj + bestsize)
      then extend_right a b ahi bhi (besti, bestj, bestsize + 1)
      else (besti, bestj, bestsize))"
  by pat_completeness auto
termination
  by (relation "measure (\<lambda>(a, b, ahi, bhi, besti, bestj, bestsize). ahi - (besti + bestsize))") auto

definition find_longest_match ::
  "string \<Rightarrow> string \<Rightarrow> nat \<Rightarrow> nat \<Rightarrow> nat \<Rightarrow> nat \<Rightarrow> nat \<times> nat \<times> nat" where
  "find_longest_match a b alo ahi blo bhi =
     (case foldl (flm_row a b blo bhi) (\<lambda>_. 0, alo, blo, 0) [alo..<ahi] of
        (j2len, besti, bestj, bestsize) \<Rightarrow>
          extend_right a b ahi bhi (extend_left a b alo blo (besti, bestj, bestsize)))"

text \<open>
  The block that \<open>find_longest_match\<close> returns lies inside the range of \<open>a\<close> it was
  asked about; this is what makes the loop over the blocks terminate.
\<close>

lemma flm_inner_bounds:
  assumes "flm_inner j2len i blo bhi js (nj, bi, bj, bs) = (nj', bi', bj', bs')"
    and "\<forall>j. j2len j \<le> i - alo" "alo \<le> i" "alo \<le> bi" "bi + bs \<le> i + 1"
    and "\<forall>j. nj j \<le> i + 1 - alo"
  shows "alo \<le> bi' \<and> bi' + bs' \<le> i + 1 \<and> (\<forall>j. nj' j \<le> i + 1 - alo)"
  using assms
proof (induction js arbitrary: nj bi bj bs)
  case Nil
  then show ?case by simp
next
  case (Cons j js)
  define k where "k = (if j = 0 then 0 else j2len (j - 1)) + 1"
  have k: "k \<le> i + 1 - alo" "1 \<le> k"
    using Cons.prems(2,3) unfolding k_def
    by (auto simp: le_diff_conv2 intro: le_trans[OF spec[of _ "j - 1"]] split: if_splits)
  show ?case
  proof (cases "j < blo")
    case True
    with Cons show ?thesis by simp
  next
    case False
    note nb = this
    show ?thesis
    proof (cases "bhi \<le> j")
      case True
      with nb Cons.prems show ?thesis by simp
    next
      case False
      have upd: "\<forall>j'. (nj(j := k)) j' \<le> i + 1 - alo"
        using Cons.prems(6) k by simp
      show ?thesis
      proof (cases "bs < k")
        case True
        have call: "flm_inner j2len i blo bhi js (nj(j := k), i + 1 - k, j + 1 - k, k) = (nj', bi', bj', bs')"
          using Cons.prems(1) nb False True by (simp add: k_def Let_def)
        have "alo \<le> i + 1 - k" "i + 1 - k + k \<le> i + 1"
          using k Cons.prems(3) by simp_all
        from Cons.IH[OF call Cons.prems(2,3) this upd] show ?thesis .
      next
        case bsk: False
        have call: "flm_inner j2len i blo bhi js (nj(j := k), bi, bj, bs) = (nj', bi', bj', bs')"
          using Cons.prems(1) nb False bsk by (simp add: k_def Let_def)
        from Cons.IH[OF call Cons.prems(2,3,4,5) upd] show ?thesis .
      qed
    qed
  qed
qed

lemma flm_rows_bounds:
  assumes "foldl (flm_row a b blo bhi) (\<lambda>_. 0, alo, blo, 0) [alo..<ahi] = (j2len, bi, bj, bs)"
  shows "alo \<le> bi \<and> bi + bs \<le> max alo ahi \<and> (\<forall>j. j2len j \<le> ahi - alo)"
  using assms
proof (induction ahi arbitrary: j2len bi bj bs)
  case 0
  then show ?case by auto
next
  case (Suc ahi)
  show ?case
  proof (cases "alo \<le> ahi")
    case False
    with Suc.prems show ?thesis by auto
  next
    case True
    obtain j2 i2 j2' s2 where st:
      "foldl (flm_row a b blo bhi) (\<lambda>_. 0, alo, blo, 0) [alo..<ahi] = (j2, i2, j2', s2)"
      by (metis prod_cases4)
    from Suc.IH[OF st] True have ih: "alo \<le> i2" "i2 + s2 \<le> ahi" "\<forall>j. j2 j \<le> ahi - alo"
      by simp_all
    have "flm_row a b blo bhi (j2, i2, j2', s2) ahi = (j2len, bi, bj, bs)"
      using Suc.prems True st by simp
    then have row:
      "flm_inner j2 ahi blo bhi (b2j b (a ! ahi)) (\<lambda>_. 0, i2, j2', s2) = (j2len, bi, bj, bs)"
      by (simp add: flm_row_def)
    have "alo \<le> bi \<and> bi + bs \<le> ahi + 1 \<and> (\<forall>j. j2len j \<le> ahi + 1 - alo)"
      using flm_inner_bounds[OF row ih(3) True ih(1)] ih(2) by simp
    with True show ?thesis by simp
  qed
qed

lemma extend_left_bounds:
  "extend_left a b alo blo (bi, bj, bs) = (i, j, k) \<Longrightarrow> alo \<le> bi
    \<Longrightarrow> alo \<le> i \<and> i + k = bi + bs \<and> bs \<le> k"
proof (induction a b alo blo "(bi, bj, bs)" arbitrary: bi bj bs rule: extend_left.induct)
  case (1 a b alo blo besti bestj bestsize)
  show ?case
  proof (cases "alo < besti \<and> blo < bestj \<and> a ! (besti - 1) = b ! (bestj - 1)")
    case True
    with 1 show ?thesis by fastforce
  next
    case False
    with 1 show ?thesis by auto
  qed
qed

lemma extend_right_bounds:
  "extend_right a b ahi bhi (bi, bj, bs) = (i, j, k) \<Longrightarrow> bi + bs \<le> m \<Longrightarrow> ahi \<le> m
    \<Longrightarrow> i = bi \<and> i + k \<le> m \<and> bs \<le> k"
proof (induction a b ahi bhi "(bi, bj, bs)" arbitrary: bi bj bs rule: extend_right.induct)
  case (1 a b ahi bhi besti bestj bestsize)
  show ?case
  proof (cases "besti + bestsize < ahi \<and> bestj + bestsize < bhi
         \<and> a ! (besti + bestsize) = b ! (bestj + bestsize)")
    case True
    with 1 show ?thesis by fastforce
  next
    case False
    with 1 show ?thesis by auto
  qed
qed

lemma find_longest_match_bounds:
  assumes "find_longest_match a b alo ahi blo bhi = (i, j, k)" "k \<noteq> 0"
  shows "alo \<le> i \<and> i + k \<le> ahi"
proof -
  obtain j2len bi bj bs where st:
    "foldl (flm_row a b blo bhi) (\<lambda>_. 0, alo, blo, 0) [alo..<ahi] = (j2len, bi, bj, bs)"
    by (metis prod_cases4)
  obtain i1 j1 k1 where l: "extend_left a b alo blo (bi, bj, bs) = (i1, j1, k1)"
    by (metis prod_cases3)
  have r: "extend_right a b ahi bhi (i1, j1, k1) = (i, j, k)"
    using assms(1) st l by (simp add: find_longest_match_def)
  from flm_rows_bounds[OF st] have b0: "alo \<le> bi" "bi + bs \<le> max alo ahi" by simp_all
  from extend_left_bounds[OF l b0(1)] b0(2) have b1: "alo \<le> i1" "i1 + k1 \<le> max alo ahi"
    by simp_all
  from extend_right_bounds[OF r b1(2)] have b2: "i = i1" "i + k \<le> max alo ahi" by simp_all
  from b1(1) b2 assms(2) show ?thesis by (auto simp: max_def split: if_splits)
qed

text \<open>
  The loop of \<^verbatim>\<open>get_matching_blocks\<close>: \<^verbatim>\<open>queue\<close> is used as a stack (its last
  element is the head of the list here). The blocks are returned in the order found;
  the sorting and the merging of adjacent blocks that follow in the library leave the sum
  of the block sizes, which is all that \<^verbatim>\<open>ratio\<close> reads, unchanged.
\<close>

function matching_blocks_loop ::
  "string \<Rightarrow> string \<Rightarrow> (nat \<times> nat \<times> nat \<times> nat) list \<Rightarrow> (nat \<times> nat \<times> nat) list
    \<Rightarrow> (nat \<times> nat \<times> nat) list" where
  "matching_blocks_loop a b [] matching_blocks = matching_blocks"
| "matching_blocks_loop a b ((alo, ahi, blo, bhi) # queue) matching_blocks =
     (case find_longest_match a b alo ahi blo bhi of
        (i, j, k) \<Rightarrow>
          if k \<noteq> 0
          then matching_blocks_loop a b
                 ((if i + k < ahi \<and> j + k < bhi then [(i + k, ahi, j + k, bhi)] else []) @
                  (if alo < i \<and> blo < j then [(alo, i, blo, j)] else []) @ queue)
                 (matching_blocks @ [(i, j, k)])
          else matching_blocks_loop a b queue matching_blocks)"
  by pat_completeness auto
termination
  apply (relation "measure (\<lambda>(a, b, queue, blocks).
          sum_list (map (\<lambda>(alo, ahi, blo, bhi). 2 * (ahi - alo) + 1) queue))")
    apply simp
   apply (auto dest!: find_longest_match_bounds[OF sym])
  done

definition SequenceMatcher_ratio :: "string \<Rightarrow> string \<Rightarrow> rat" where
  "SequenceMatcher_ratio a b =
     (let matches = sum_list (map (\<lambda>(i, j, k). k)
                      (matching_blocks_loop a b [(0, length a, 0, length b)] []));
          length = length a + length b
      in if length \<noteq> 0 then 2 * of_nat matches / of_nat length else 1)"

section \<open>Grouping by time gaps\<close>

text \<open>
  One iteration of the loop of \<^verbatim>\<open>check_time_gaps\<close> at index \<open>i\<close>; the state is
  the pair of \<^verbatim>\<open>result\<close> and \<^verbatim>\<open>current_group\<close>.
\<close>

definition check_time_gaps_step ::
  "rat \<Rightarrow> ASRDataSeg list \<Rightarrow> ASRDataSeg list list \<times> ASRDataSeg list \<Rightarrow> nat
    \<Rightarrow> ASRDataSeg list list \<times> ASRDataSeg list" where
  "check_time_gaps_step max_gap segments st i =
     (case st of (result, current_group) \<Rightarrow>
        let time_gap = start_time (segments ! i) - end_time (segments ! (i - 1))
        in if time_gap > max_gap
           then (result @ [current_group], [segments ! i])
           else (result, current_group @ [segments ! i]))"

definition check_time_gaps :: "ASRDataSeg list \<Rightarrow> rat \<Rightarrow> ASRDataSeg list list" where
  "check_time_gaps segments max_gap =
     (if segments = [] then []
      else
        (case foldl (check_time_gaps_step max_gap segments) ([], [segments ! 0])
                [1..<length segments] of
           (result, current_group) \<Rightarrow>
             if current_group \<noteq> [] then result @ [current_group] else result))"

section \<open>Splitting an over-long group\<close>

text \<open>
  \<^verbatim>\<open>MAX_WORD_COUNT\<close> is imported from a module outside this file; it is the
  parameter \<open>MAX_WORD_COUNT\<close> of the functions below. The tolerance \<^verbatim>\<open>1e-6\<close> is
  a double: the one nearest to \<open>1 / 10^6\<close>, whose exact value is
  \<open>4722366482869645 / 2^72\<close>, a little below \<open>1 / 10^6\<close>.
\<close>

definition gap_after :: "ASRDataSeg list \<Rightarrow> nat \<Rightarrow> rat" where
  "gap_after segs_to_merge i =
     start_time (segs_to_merge ! (i + 1)) - end_time (segs_to_merge ! i)"

text \<open>Python's \<^verbatim>\<open>max(iterable, key=..., default=...)\<close>: the first of the maximal elements.\<close>

fun max_key :: "(nat \<Rightarrow> rat) \<Rightarrow> nat list \<Rightarrow> nat \<Rightarrow> nat" where
  "max_key key [] default_value = default_value"
| "max_key key (x # xs) default_value = foldl (\<lambda>best y. if key best < key y then y else best) x xs"

definition all_equal :: "rat list \<Rightarrow> bool" where
  "all_equal gaps =
     list_all (\<lambda>gap. \<bar>gap - gaps ! 0\<bar> < 4722366482869645 / 2 ^ 72) gaps"

definition split_index :: "ASRDataSeg list \<Rightarrow> nat" where
  "split_index segs_to_merge =
     (let n = length segs_to_merge;
          gaps = map (gap_after segs_to_merge) [0..<n - 1]
      in if all_equal gaps then n div 2
         else
           (let start_idx = n div 6;
                end_idx = (5 * n) div 6
            in max_key (gap_after segs_to_merge) [start_idx..<end_idx] (n div 2)))"

text \<open>
  \<^verbatim>\<open>split_long_segment\<close> is recursive and Python bounds the depth of recursion: the
  argument \<open>depth\<close> is the number of nested calls still allowed, and a call beyond it
  raises \<^verbatim>\<open>RecursionError\<close>. Reading element 0 of an empty list raises
  \<^verbatim>\<open>IndexError\<close>.
\<close>

fun split_long_segment :: "nat \<Rightarrow> nat \<Rightarrow> string \<Rightarrow> ASRDataSeg list \<Rightarrow> error + ASRDataSeg list" where
  "split_long_segment MAX_WORD_COUNT 0 merged_text segs_to_merge = Inl RecursionError"
| "split_long_segment MAX_WORD_COUNT (Suc depth) merged_text segs_to_merge =
     (if count_words merged_text \<le> MAX_WORD_COUNT \<or> length segs_to_merge = 1
      then
        (if segs_to_merge = [] then Inl IndexError
         else Inr [\<lparr>seg_text = strip merged_text,
                     start_time = start_time (segs_to_merge ! 0),
                     end_time = end_time (last segs_to_merge)\<rparr>])
      else
        (let first_segs = take (split_index segs_to_merge + 1) segs_to_merge;
             second_segs = drop (split_index segs_to_merge + 1) segs_to_merge;
             first_text = concat (map seg_text first_segs);
             second_text = concat (map seg_text second_segs)
         in case split_long_segment MAX_WORD_COUNT depth first_text first_segs of
              Inl e \<Rightarrow> Inl e
            | Inr first_result \<Rightarrow>
                (case split_long_segment MAX_WORD_COUNT depth second_text second_segs of
                   Inl e \<Rightarrow> Inl e
                 | Inr second_result \<Rightarrow> Inr (first_result @ second_result))))"

section \<open>Aligning sentences to fragments\<close>

text \<open>
  The search for one sentence; the state is the triple of \<^verbatim>\<open>best_ratio\<close>,
  \<^verbatim>\<open>best_pos\<close> and \<^verbatim>\<open>best_window_size\<close>. Both loops stop at a ratio of 1.
\<close>

fun search_starts ::
  "string list \<Rightarrow> string \<Rightarrow> nat \<Rightarrow> nat list \<Rightarrow> rat \<times> nat option \<times> nat
    \<Rightarrow> rat \<times> nat option \<times> nat" where
  "search_starts asr_texts sentence_proc window_size [] best = best"
| "search_starts asr_texts sentence_proc window_size (start # starts)
       (best_ratio, best_pos, best_window_size) =
     (let substr = concat (take window_size (drop start asr_texts));
          substr_proc = preprocess_text substr;
          ratio = SequenceMatcher_ratio sentence_proc substr_proc;
          best = (if best_ratio < ratio then (ratio, Some start, window_size)
                  else (best_ratio, best_pos, best_window_size))
      in if ratio = 1 then best
         else search_starts asr_texts sentence_proc window_size starts best)"

primrec search_windows ::
  "string list \<Rightarrow> string \<Rightarrow> nat \<Rightarrow> nat \<Rightarrow> nat list \<Rightarrow> rat \<times> nat option \<times> nat
    \<Rightarrow> rat \<times> nat option \<times> nat" where
  "search_windows asr_texts sentence_proc asr_index max_shift [] best = best"
| "search_windows asr_texts sentence_proc asr_index max_shift (window_size # window_sizes) best =
     (let asr_len = length asr_texts;
          max_start = min (asr_index + max_shift + 1) (asr_len + 1 - window_size);
          best' = search_starts asr_texts sentence_proc window_size [asr_index..<max_start] best
      in if fst best' = 1 then best'
         else search_windows asr_texts sentence_proc asr_index max_shift window_sizes best')"

definition window_sizes :: "nat \<Rightarrow> nat \<Rightarrow> nat \<Rightarrow> nat list" where
  "window_sizes word_count asr_len asr_index =
     (let max_window_size = min (word_count * 2) (asr_len - asr_index);
          min_window_size = max 1 (word_count div 2)
      in sort_key (\<lambda>x. \<bar>int x - int word_count\<bar>) [min_window_size..<max_window_size + 1])"

definition find_best :: "string list \<Rightarrow> nat \<Rightarrow> nat \<Rightarrow> string \<Rightarrow> rat \<times> nat option \<times> nat" where
  "find_best asr_texts asr_index max_shift sentence =
     (let sentence_proc = preprocess_text sentence;
          word_count = count_words sentence_proc
      in search_windows asr_texts sentence_proc asr_index max_shift
           (window_sizes word_count (length asr_texts) asr_index) (0, None, 0))"

text \<open>The loop over the groups of an accepted range.\<close>

fun merge_groups ::
  "nat \<Rightarrow> nat \<Rightarrow> ASRDataSeg list list \<Rightarrow> ASRDataSeg list \<Rightarrow> error + ASRDataSeg list" where
  "merge_groups MAX_WORD_COUNT depth [] new_segments = Inr new_segments"
| "merge_groups MAX_WORD_COUNT depth (grp # seg_groups) new_segments =
     (if grp = [] then Inl IndexError
      else
        (let merged_text = concat (map seg_text grp);
             merged_seg = \<lparr>seg_text = merged_text,
                           start_time = start_time (grp ! 0),
                           end_time = end_time (last grp)\<rparr>
         in if MAX_WORD_COUNT < count_words merged_text
            then
              (case split_long_segment MAX_WORD_COUNT depth merged_text grp of
                 Inl e \<Rightarrow> Inl e
               | Inr split_segs \<Rightarrow>
                   merge_groups MAX_WORD_COUNT depth seg_groups (new_segments @ split_segs))
            else merge_groups MAX_WORD_COUNT depth seg_groups (new_segments @ [merged_seg])))"

text \<open>
  The state of the loop over the sentences. \<open>end_seg_index\<close> is \<open>None\<close> as long as
  the variable has not been assigned. \<open>ranges\<close> is not a variable of the program: it
  records, for every accepted sentence, the pair of \<^verbatim>\<open>start_seg_index\<close> and
  \<^verbatim>\<open>end_seg_index\<close> that the program computes, so that the ranges can be talked
  about.
\<close>

record align_state =
  asr_index :: nat
  max_shift :: nat
  end_seg_index :: "nat option"
  new_segments :: "ASRDataSeg list"
  ranges :: "(nat \<times> nat) list"

text \<open>
  The body of the loop for one sentence. In the branch of an unmatched sentence the
  program reads \<^verbatim>\<open>end_seg_index\<close>, which only the other branch assigns.
\<close>

definition align_sentence ::
  "nat \<Rightarrow> nat \<Rightarrow> ASRData \<Rightarrow> align_state \<Rightarrow> string \<Rightarrow> error + align_state" where
  "align_sentence MAX_WORD_COUNT depth segments st sentence =
     (case find_best (map seg_text segments) (asr_index st) (max_shift st) sentence of
        (best_ratio, best_pos, best_window_size) \<Rightarrow>
          (case best_pos of
             Some pos \<Rightarrow>
               if 1 / 2 \<le> best_ratio
               then
                 (let start_seg_index = pos;
                      end_seg_index' = pos + best_window_size - 1;
                      segs_to_merge =
                        take (end_seg_index' + 1 - start_seg_index) (drop start_seg_index segments);
                      seg_groups = check_time_gaps segs_to_merge MAX_GAP
                  in case merge_groups MAX_WORD_COUNT depth seg_groups (new_segments st) of
                       Inl e \<Rightarrow> Inl e
                     | Inr new_segments' \<Rightarrow>
                         Inr (st\<lparr>asr_index := end_seg_index' + 1, max_shift := 30,
                                 end_seg_index := Some end_seg_index',
                                 new_segments := new_segments',
                                 ranges := ranges st @ [(start_seg_index, end_seg_index')]\<rparr>))
               else
                 (case end_seg_index st of
                    None \<Rightarrow> Inl UnboundLocalError
                  | Some e \<Rightarrow> Inr (st\<lparr>max_shift := 100, asr_index := e + 1\<rparr>))
           | None \<Rightarrow>
               (case end_seg_index st of
                  None \<Rightarrow> Inl UnboundLocalError
                | Some e \<Rightarrow> Inr (st\<lparr>max_shift := 100, asr_index := e + 1\<rparr>))))"

fun align_loop ::
  "nat \<Rightarrow> nat \<Rightarrow> ASRData \<Rightarrow> align_state \<Rightarrow> string list \<Rightarrow> error + align_state" where
  "align_loop MAX_WORD_COUNT depth segments st [] = Inr st"
| "align_loop MAX_WORD_COUNT depth segments st (sentence # sentences) =
     (case align_sentence MAX_WORD_COUNT depth segments st sentence of
        Inl e \<Rightarrow> Inl e
      | Inr st' \<Rightarrow> align_loop MAX_WORD_COUNT depth segments st' sentences)"

definition init_state :: align_state where
  "init_state = \<lparr>asr_index = 0, max_shift = 30, end_seg_index = None,
                  new_segments = [], ranges = []\<rparr>"

definition merge_segments_based_on_sentences ::
  "nat \<Rightarrow> nat \<Rightarrow> ASRData \<Rightarrow> string list \<Rightarrow> error + ASRData" where
  "merge_segments_based_on_sentences MAX_WORD_COUNT depth asr_data sentences =
     (case align_loop MAX_WORD_COUNT depth asr_data init_state sentences of
        Inl e \<Rightarrow> Inl e
      | Inr st \<Rightarrow> Inr (new_segments st))"

text \<open>The ranges accepted in a run that returns (none are reported for a run that raises).\<close>

definition accepted_ranges :: "nat \<Rightarrow> nat \<Rightarrow> ASRData \<Rightarrow> string list \<Rightarrow> (nat \<times> nat) list" where
  "accepted_ranges MAX_WORD_COUNT depth asr_data sentences =
     (case align_loop MAX_WORD_COUNT depth asr_data init_state sentences of
        Inl e \<Rightarrow> []
      | Inr st \<Rightarrow> ranges st)"

section \<open>Chunking\<close>

text \<open>
  Modelled from the spec: \<^verbatim>\<open>ASRData.to_txt\<close> is a method of the class declared
  outside this file. It gives the flattened text of a sequence; the callers delete the
  line feeds from it, so it is taken to join the texts of the fragments by line feeds.
\<close>

definition to_txt :: "ASRData \<Rightarrow> string" where
  "to_txt asr_data = join [CHR 0x0A] (map seg_text asr_data)"

text \<open>\<^verbatim>\<open>s.replace("\n", "")\<close>\<close>

definition remove_newlines :: "string \<Rightarrow> string" where
  "remove_newlines s = filter (\<lambda>c. c \<noteq> CHR 0x0A) s"

text \<open>
  The search around one target split point of \<^verbatim>\<open>split_asr_data\<close>; the state of
  the loop is the pair of \<^verbatim>\<open>max_gap\<close> and \<^verbatim>\<open>best_index\<close>.
\<close>

definition adjust_split_point :: "ASRData \<Rightarrow> int \<Rightarrow> int" where
  "adjust_split_point segments split_point =
     (let total_segs = int (length segments);
          start = max 0 (split_point - int SPLIT_RANGE);
          end = min (total_segs - 1) (split_point + int SPLIT_RANGE)
      in snd (foldl
           (\<lambda>(max_gap, best_index) j.
              let gap = start_time (segments ! nat (j + 1)) - end_time (segments ! nat j)
              in if max_gap < gap then (gap, j) else (max_gap, best_index))
           (- 1, split_point) [start..end - 1]))"

text \<open>\<^verbatim>\<open>segments[lo:hi]\<close> for indices that are not negative.\<close>

definition slice :: "'a list \<Rightarrow> int \<Rightarrow> int \<Rightarrow> 'a list" where
  "slice xs lo hi = take (nat (hi - lo)) (drop (nat lo) xs)"

fun split_parts :: "ASRData \<Rightarrow> int \<Rightarrow> int list \<Rightarrow> ASRData list" where
  "split_parts segments prev_index [] =
     (if prev_index < int (length segments) then [drop (nat prev_index) segments] else [])"
| "split_parts segments prev_index (index # adjusted_split_indices) =
     slice segments prev_index (index + 1)
       # split_parts segments (index + 1) adjusted_split_indices"

definition split_asr_data :: "ASRData \<Rightarrow> int \<Rightarrow> error + ASRData list" where
  "split_asr_data asr_data num_segments =
     (let total_segs = int (length asr_data);
          total_word_count = int (count_words (to_txt asr_data))
      in if num_segments = 0 then Inl ZeroDivisionError
         else
           (let words_per_segment = total_word_count div num_segments
            in if num_segments \<le> 1 \<or> total_segs \<le> num_segments then Inr [asr_data]
               else
                 (let split_indices = map (\<lambda>i. i * words_per_segment) [1..num_segments - 1];
                      adjusted_split_indices =
                        sort (remdups (map (adjust_split_point asr_data) split_indices))
                  in Inr (split_parts asr_data 0 adjusted_split_indices))))"

section \<open>The optimizer\<close>

text \<open>
  Modelled from the spec: \<^verbatim>\<open>ASRData.merge_with_next_segment\<close> is a method of the
  class declared outside this file. Merging fragment \<open>index + 1\<close> into fragment
  \<open>index\<close> gives a new fragment with the concatenated text, the earliest start and the
  latest end, which replaces the two.
\<close>

definition merge_with_next_segment :: "ASRData \<Rightarrow> nat \<Rightarrow> ASRData" where
  "merge_with_next_segment segments index =
     (let current_seg = segments ! index;
          next_seg = segments ! (index + 1);
          merged_seg = \<lparr>seg_text = seg_text current_seg @ seg_text next_seg,
                        start_time = min (start_time current_seg) (start_time next_seg),
                        end_time = max (end_time current_seg) (end_time next_seg)\<rparr>
      in take index segments @ [merged_seg] @ drop (index + 2) segments)"

text \<open>
  The loop of \<^verbatim>\<open>optimize_subtitles\<close> runs \<open>i\<close> from the last index down to 1 on
  the list that the merges shorten.
\<close>

fun optimize_loop :: "nat \<Rightarrow> ASRData \<Rightarrow> error + ASRData" where
  "optimize_loop 0 segments = Inr segments"
| "optimize_loop (Suc j) segments =
     (if length segments \<le> Suc j then Inl IndexError
      else
        (let current_seg = segments ! Suc j;
             prev_seg = segments ! j;
             time_gap = \<bar>start_time current_seg - end_time prev_seg\<bar>;
             current_words = count_words (seg_text current_seg);
             total_words = current_words + count_words (seg_text prev_seg)
         in if time_gap < 300 \<and> current_words < 5 \<and> total_words \<le> 12
            then optimize_loop j (merge_with_next_segment segments j)
            else optimize_loop j segments))"

definition optimize_subtitles :: "ASRData \<Rightarrow> error + ASRData" where
  "optimize_subtitles asr_data = optimize_loop (length asr_data - 1) asr_data"

section \<open>The orchestrator\<close>

definition determine_num_segments :: "int \<Rightarrow> int \<Rightarrow> error + int" where
  "determine_num_segments word_count threshold =
     (if threshold = 0 then Inl ZeroDivisionError
      else
        (let num_segments = word_count div threshold;
             num_segments = (if 0 < word_count mod threshold then num_segments + 1
                             else num_segments)
         in Inr (max 1 num_segments)))"

text \<open>The pre-processing loop at the head of \<^verbatim>\<open>merge_segments\<close>.\<close>

definition letters_and_apostrophes :: "string \<Rightarrow> bool" where
  "letters_and_apostrophes s =
     (s \<noteq> [] \<and> list_all (\<lambda>c. let n = (of_char c :: nat)
                               in (97 \<le> n \<and> n \<le> 122) \<or> (65 \<le> n \<and> n \<le> 90) \<or> n = 39) s)"

fun preprocess_segments :: "ASRData \<Rightarrow> ASRData" where
  "preprocess_segments [] = []"
| "preprocess_segments (seg # segments) =
     (if \<not> is_pure_punctuation (seg_text seg)
      then
        (if letters_and_apostrophes (strip (seg_text seg))
         then seg\<lparr>seg_text := lower (seg_text seg) @ '' ''\<rparr>
         else seg) # preprocess_segments segments
      else preprocess_segments segments)"

text \<open>The chunk count that \<^verbatim>\<open>merge_segments\<close> computes from the pre-processed sequence.\<close>

definition merge_segments_num_segments :: "ASRData \<Rightarrow> error + int" where
  "merge_segments_num_segments asr_data =
     (let txt = remove_newlines (to_txt asr_data);
          total_word_count = count_words txt
      in determine_num_segments (int total_word_count) SEGMENT_THRESHOLD)"

text \<open>
  \<^verbatim>\<open>split_by_llm\<close> is the external sentence splitter: the parameter
  \<open>split_by_llm\<close> gives, for the position of a chunk and its text, the sentences
  returned for it. \<^verbatim>\<open>merge_segments\<close> assigns to the fields of the object it is
  given, so the model returns the sequence that the caller's object holds afterwards
  together with the result.
\<close>

definition merge_segments ::
  "nat \<Rightarrow> nat \<Rightarrow> (nat \<Rightarrow> string \<Rightarrow> string list) \<Rightarrow> ASRData \<Rightarrow> ASRData \<times> (error + ASRData)" where
  "merge_segments MAX_WORD_COUNT depth split_by_llm asr_data0 =
     (let asr_data = preprocess_segments asr_data0
      in (asr_data,
          case merge_segments_num_segments asr_data of
            Inl e \<Rightarrow> Inl e
          | Inr num_segments \<Rightarrow>
              (case split_asr_data asr_data num_segments of
                 Inl e \<Rightarrow> Inl e
               | Inr asr_data_segments \<Rightarrow>
                   (let all_sentences =
                          concat (map (\<lambda>(i, asr_data_part).
                                    split_by_llm i (remove_newlines (to_txt asr_data_part)))
                                  (enumerate 0 asr_data_segments))
                    in case merge_segments_based_on_sentences MAX_WORD_COUNT depth asr_data
                              all_sentences of
                         Inl e \<Rightarrow> Inl e
                       | Inr merged_asr_data \<Rightarrow>
                           optimize_subtitles (sort_key start_time merged_asr_data)))))"

section \<open>Observers and example inputs\<close>

text \<open>
  Two observers used to state where the groups break: \<open>gaps_within\<close> holds of a run
  of fragments none of whose successive gaps exceeds the threshold, \<open>gaps_between\<close>
  holds of a list of groups when every gap from the last fragment of a group to the first
  of the next one exceeds it.
\<close>

fun gaps_within :: "rat \<Rightarrow> ASRDataSeg list \<Rightarrow> bool" where
  "gaps_within max_gap (x # y # ys) =
     (\<not> start_time y - end_time x > max_gap \<and> gaps_within max_gap (y # ys))"
| "gaps_within max_gap _ = True"

fun gaps_between :: "rat \<Rightarrow> ASRDataSeg list list \<Rightarrow> bool" where
  "gaps_between max_gap (g # h # gs) =
     (start_time (hd h) - end_time (last g) > max_gap \<and> gaps_between max_gap (h # gs))"
| "gaps_between max_gap _ = True"

text \<open>What the search guarantees about a position it reports.\<close>

definition window_ok :: "nat \<Rightarrow> nat \<Rightarrow> rat \<times> nat option \<times> nat \<Rightarrow> bool" where
  "window_ok lo n best =
     (case fst (snd best) of
        None \<Rightarrow> True
      | Some pos \<Rightarrow> lo \<le> pos \<and> 1 \<le> snd (snd best) \<and> pos + snd (snd best) \<le> n)"

text \<open>
  The invariant of the loop over the sentences: the ranges accepted so far are not empty,
  end before the cursor and follow each other without overlap; the cursor is inside the
  sequence, and it is one past \<^verbatim>\<open>end_seg_index\<close> once that is assigned.
\<close>

definition ranges_ok :: "nat \<Rightarrow> align_state \<Rightarrow> bool" where
  "ranges_ok n st =
     (list_all (\<lambda>(s, e). s \<le> e \<and> e < asr_index st) (ranges st)
      \<and> sorted_wrt (\<lambda>a b. snd a < fst b) (ranges st)
      \<and> asr_index st \<le> n
      \<and> (case end_seg_index st of None \<Rightarrow> True | Some e \<Rightarrow> asr_index st = e + 1))"

text \<open>
  Inputs on which the properties below are evaluated: seven fragments whose gaps grow from
  10 ms to 60 ms, four fragments with gaps of 0 ms, and five fragments whose last gap is
  the tolerance itself and the others 0 ms; the sequence of the end-to-end
  scenario of the specification; a sequence whose first fragment matches no sentence;
  three fragments of three words each; and a sequence with a fragment of punctuation.
\<close>

definition example_increasing :: ASRData where
  "example_increasing =
     [\<lparr>seg_text = ''a '', start_time = 0, end_time = 100\<rparr>,
      \<lparr>seg_text = ''b '', start_time = 110, end_time = 200\<rparr>,
      \<lparr>seg_text = ''c '', start_time = 220, end_time = 300\<rparr>,
      \<lparr>seg_text = ''d '', start_time = 330, end_time = 400\<rparr>,
      \<lparr>seg_text = ''e '', start_time = 440, end_time = 500\<rparr>,
      \<lparr>seg_text = ''f '', start_time = 550, end_time = 600\<rparr>,
      \<lparr>seg_text = ''g '', start_time = 660, end_time = 700\<rparr>]"

definition example_uniform :: ASRData where
  "example_uniform =
     [\<lparr>seg_text = ''a '', start_time = 0, end_time = 100\<rparr>,
      \<lparr>seg_text = ''b '', start_time = 100, end_time = 200\<rparr>,
      \<lparr>seg_text = ''c '', start_time = 200, end_time = 300\<rparr>,
      \<lparr>seg_text = ''d '', start_time = 300, end_time = 400\<rparr>]"

definition example_tolerance :: ASRData where
  "example_tolerance =
     [\<lparr>seg_text = ''a '', start_time = 0, end_time = 0\<rparr>,
      \<lparr>seg_text = ''b '', start_time = 0, end_time = 0\<rparr>,
      \<lparr>seg_text = ''c '', start_time = 0, end_time = 0\<rparr>,
      \<lparr>seg_text = ''d '', start_time = 0, end_time = 0\<rparr>,
      \<lparr>seg_text = ''e '', start_time = 4722366482869645 / 2 ^ 72, end_time = 1\<rparr>]"

definition scenario :: ASRData where
  "scenario =
     [\<lparr>seg_text = ''The'', start_time = 0, end_time = 100\<rparr>,
      \<lparr>seg_text = ''quick'', start_time = 100, end_time = 200\<rparr>,
      \<lparr>seg_text = ''fox'', start_time = 200, end_time = 2200\<rparr>,
      \<lparr>seg_text = ''jumps'', start_time = 2200, end_time = 2300\<rparr>]"

definition skipping :: ASRData where
  "skipping =
     [\<lparr>seg_text = ''zzz '', start_time = 0, end_time = 100\<rparr>,
      \<lparr>seg_text = ''hello '', start_time = 100, end_time = 200\<rparr>,
      \<lparr>seg_text = ''world '', start_time = 200, end_time = 300\<rparr>]"

definition three_phrases :: ASRData where
  "three_phrases =
     [\<lparr>seg_text = ''a b c '', start_time = 0, end_time = 100\<rparr>,
      \<lparr>seg_text = ''d e f '', start_time = 100, end_time = 200\<rparr>,
      \<lparr>seg_text = ''g h i '', start_time = 200, end_time = 300\<rparr>]"


section \<open>Evaluation of texts\<close>

lemmas text_defs =
  count_words_def count_words_step_def patterns_def in_pattern_def split_def strip_def
  isspace_def lower_def lower_char_def preprocess_text_def char_of_def bit_0

lemmas gap_defs = check_time_gaps_def check_time_gaps_step_def MAX_GAP_def

lemma of_char_below_patterns: "pattern \<in> set patterns \<Longrightarrow> \<not> in_pattern pattern c"
proof -
  have "(of_char c :: int) < 256"
    by (metis of_char_mod_256 pos_mod_bound zero_less_numeral)
  moreover assume "pattern \<in> set patterns"
  ultimately show ?thesis
    by (auto simp: patterns_def in_pattern_def)
qed

lemma count_words_steps:
  "set ps \<subseteq> set patterns \<Longrightarrow> foldl count_words_step (n, txt) ps = (n, txt)"
proof (induction ps)
  case Nil
  then show ?case by simp
next
  case (Cons p ps)
  then have "\<And>c. \<not> in_pattern p c" by (simp add: of_char_below_patterns)
  then have "count_words_step (n, txt) p = (n, txt)"
    by (simp add: count_words_step_def)
  with Cons show ?case by simp
qed

lemma count_words_tokens: "count_words txt = length (split (strip txt))"
  by (simp add: count_words_def count_words_steps)

lemma split_loop_leading: "split_loop [] (dropWhile isspace s) = split_loop [] s"
  by (induction s) simp_all

lemma split_loop_trailing:
  "list_all isspace ws \<Longrightarrow> split_loop cur (s @ ws) = split_loop cur s"
proof (induction s arbitrary: cur)
  case Nil
  then show ?case by (induction ws arbitrary: cur) auto
next
  case (Cons c s)
  then show ?case by simp
qed

lemma split_strip: "split (strip s) = split s"
proof -
  let ?s = "dropWhile isspace s"
  have "?s = rev (dropWhile isspace (rev ?s)) @ rev (takeWhile isspace (rev ?s))"
    by (metis rev_append rev_rev_ident takeWhile_dropWhile_id)
  moreover have "list_all isspace (rev (takeWhile isspace (rev ?s)))"
    by (auto simp: list_all_iff dest: set_takeWhileD)
  ultimately have "split_loop [] ?s = split_loop [] (rev (dropWhile isspace (rev ?s)))"
    by (metis split_loop_trailing)
  then show ?thesis
    by (simp add: split_def strip_def split_loop_leading)
qed

lemma remove_newlines_join:
  "remove_newlines (join [CHR 0x0A] xs) = concat (map remove_newlines xs)"
  by (induction "[CHR 0x0A]" xs rule: join.induct) (simp_all add: remove_newlines_def)

lemma split_words: "split (concat (replicate n ''a '')) = replicate n ''a''"
proof -
  have "split_loop [] (concat (replicate n ''a '')) = replicate n ''a''"
    by (induction n) (simp_all add: isspace_def)
  then show ?thesis by (simp add: split_def)
qed

lemma count_words_replicate:
  "count_words (remove_newlines (to_txt (replicate n \<lparr>seg_text = ''a '', start_time = s, end_time = e\<rparr>)))
     = n"
proof -
  have "remove_newlines ''a '' = ''a ''"
    by (simp add: remove_newlines_def)
  then have "remove_newlines (to_txt (replicate n \<lparr>seg_text = ''a '', start_time = s, end_time = e\<rparr>))
      = concat (replicate n ''a '')"
    by (simp add: to_txt_def remove_newlines_join map_replicate_const)
  then show ?thesis
    by (simp add: count_words_tokens split_strip split_words)
qed

lemma count_words_six: "count_words ''one two three four five six'' = 6"
  by (simp add: text_defs)

section \<open>Properties of the grouping by time gaps\<close>

lemma gaps_within_snoc:
  "gaps_within m (xs @ [y]) =
     (gaps_within m xs \<and> (xs = [] \<or> \<not> start_time y - end_time (last xs) > m))"
  by (induction m xs rule: gaps_within.induct) auto

lemma gaps_between_snoc:
  "gaps_between m (gs @ [h]) =
     (gaps_between m gs \<and>
      (gs = [] \<or> start_time (hd h) - end_time (last (last gs)) > m))"
  by (induction m gs rule: gaps_between.induct) auto

lemma gaps_between_grow:
  "cur \<noteq> [] \<Longrightarrow> gaps_between m (gs @ [cur @ [x]]) = gaps_between m (gs @ [cur])"
  by (simp add: gaps_between_snoc)

lemma check_time_gaps_loop_inv:
  assumes "segs \<noteq> []" "n \<le> length segs" "1 \<le> n"
    and "foldl (check_time_gaps_step m segs) ([], [segs ! 0]) [1..<n] = (res, cur)"
  shows "concat res @ cur = take n segs \<and> cur \<noteq> [] \<and> [] \<notin> set res
         \<and> (\<forall>g \<in> set (res @ [cur]). gaps_within m g) \<and> gaps_between m (res @ [cur])"
  using assms(2-)
proof (induction n arbitrary: res cur)
  case 0
  then show ?case by simp
next
  case (Suc n)
  show ?case
  proof (cases "n = 0")
    case True
    with Suc.prems assms(1) show ?thesis
      by (cases segs) auto
  next
    case False
    obtain res0 cur0 where f0:
      "foldl (check_time_gaps_step m segs) ([], [segs ! 0]) [1..<n] = (res0, cur0)"
      by (cases "foldl (check_time_gaps_step m segs) ([], [segs ! 0]) [1..<n]")
    from False Suc.prems have n: "n \<le> length segs" "1 \<le> n" "n < length segs" by simp_all
    from Suc.IH[OF n(1,2) f0] have ih:
      "concat res0 @ cur0 = take n segs" "cur0 \<noteq> []" "[] \<notin> set res0"
      "\<forall>g \<in> set (res0 @ [cur0]). gaps_within m g" "gaps_between m (res0 @ [cur0])"
      by simp_all
    have lastc: "last cur0 = segs ! (n - 1)"
    proof -
      have "last cur0 = last (concat res0 @ cur0)" using ih(2) by simp
      also have "\<dots> = last (take n segs)" using ih(1) by simp
      also have "\<dots> = segs ! (n - 1)" using n
        by (cases n) (simp_all add: take_Suc_conv_app_nth)
      finally show ?thesis .
    qed
    have step: "check_time_gaps_step m segs (res0, cur0) n = (res, cur)"
      using Suc.prems(3) False f0 by simp
    have tk: "take (Suc n) segs = take n segs @ [segs ! n]"
      using n(3) by (simp add: take_Suc_conv_app_nth)
    show ?thesis
    proof (cases "start_time (segs ! n) - end_time (segs ! (n - 1)) > m")
      case True
      with step have rc: "res = res0 @ [cur0]" "cur = [segs ! n]"
        by (simp_all add: check_time_gaps_step_def)
      have gb: "gaps_between m ((res0 @ [cur0]) @ [[segs ! n]])"
        using ih(5) True lastc by (subst gaps_between_snoc) simp
      show ?thesis using ih tk gb
        by (simp add: rc)
    next
      case False
      with step have rc: "res = res0" "cur = cur0 @ [segs ! n]"
        by (simp_all add: check_time_gaps_step_def)
      have gb: "gaps_between m (res0 @ [cur0 @ [segs ! n]])"
        using ih(5) ih(2) by (simp add: gaps_between_grow)
      have gw: "gaps_within m (cur0 @ [segs ! n])"
        using ih(4) False lastc by (simp add: gaps_within_snoc)
      show ?thesis using ih tk gb gw
        by (simp add: rc)
    qed
  qed
qed

lemma check_time_gaps_groups:
  "concat (check_time_gaps segments max_gap) = segments
   \<and> [] \<notin> set (check_time_gaps segments max_gap)
   \<and> list_all (gaps_within max_gap) (check_time_gaps segments max_gap)
   \<and> gaps_between max_gap (check_time_gaps segments max_gap)"
proof (cases "segments = []")
  case True
  then show ?thesis by (simp add: check_time_gaps_def)
next
  case False
  obtain res cur where f:
    "foldl (check_time_gaps_step max_gap segments) ([], [segments ! 0]) [1..<length segments]
       = (res, cur)"
    by (cases "foldl (check_time_gaps_step max_gap segments) ([], [segments ! 0])
                 [1..<length segments]")
  from False have "1 \<le> length segments" by (cases segments) simp_all
  from check_time_gaps_loop_inv[OF False _ this f]
  have inv: "concat res @ cur = segments" "cur \<noteq> []" "[] \<notin> set res"
    "\<forall>g \<in> set (res @ [cur]). gaps_within max_gap g" "gaps_between max_gap (res @ [cur])"
    by simp_all
  have c: "check_time_gaps segments max_gap = res @ [cur]"
    using False f inv(2) by (simp add: check_time_gaps_def)
  show ?thesis using inv unfolding c by (simp add: list_all_iff)
qed

lemma check_time_gaps_example:
  "check_time_gaps
       [\<lparr>seg_text = ''a'', start_time = 0, end_time = 100\<rparr>,
        \<lparr>seg_text = ''b'', start_time = 200, end_time = 300\<rparr>,
        \<lparr>seg_text = ''c'', start_time = 2300, end_time = 2400\<rparr>,
        \<lparr>seg_text = ''d'', start_time = 2450, end_time = 2500\<rparr>] 1500
     = [[\<lparr>seg_text = ''a'', start_time = 0, end_time = 100\<rparr>,
         \<lparr>seg_text = ''b'', start_time = 200, end_time = 300\<rparr>],
        [\<lparr>seg_text = ''c'', start_time = 2300, end_time = 2400\<rparr>,
         \<lparr>seg_text = ''d'', start_time = 2450, end_time = 2500\<rparr>]]"
  by (simp add: check_time_gaps_def check_time_gaps_step_def upt_conv_Cons)

text \<open>
  C9. For every fragment list and threshold, \<^verbatim>\<open>check_time_gaps\<close> returns a
  contiguous, order-preserving partition of its input: the groups concatenated give the
  input back, so every fragment is in exactly one group, and no group is empty. A new group
  starts exactly where the gap from the previous fragment's end to a fragment's start
  exceeds the threshold: no gap inside a group exceeds it, and the gap between two
  successive groups does. The empty input gives the empty list, a single fragment one
  group of one, and fragments with the gaps 100, 2000 and 50 ms under a threshold of
  1500 ms give two groups, split at the gap of 2000 ms.
\<close>

theorem check_time_gaps_partition:
  "concat (check_time_gaps segments max_gap) = segments
   \<and> [] \<notin> set (check_time_gaps segments max_gap)
   \<and> list_all (gaps_within max_gap) (check_time_gaps segments max_gap)
   \<and> gaps_between max_gap (check_time_gaps segments max_gap)
   \<and> check_time_gaps [] max_gap = []
   \<and> check_time_gaps [x] max_gap = [[x]]
   \<and> check_time_gaps
       [\<lparr>seg_text = ''a'', start_time = 0, end_time = 100\<rparr>,
        \<lparr>seg_text = ''b'', start_time = 200, end_time = 300\<rparr>,
        \<lparr>seg_text = ''c'', start_time = 2300, end_time = 2400\<rparr>,
        \<lparr>seg_text = ''d'', start_time = 2450, end_time = 2500\<rparr>] 1500
     = [[\<lparr>seg_text = ''a'', start_time = 0, end_time = 100\<rparr>,
         \<lparr>seg_text = ''b'', start_time = 200, end_time = 300\<rparr>],
        [\<lparr>seg_text = ''c'', start_time = 2300, end_time = 2400\<rparr>,
         \<lparr>seg_text = ''d'', start_time = 2450, end_time = 2500\<rparr>]]"
proof -
  have "check_time_gaps [] max_gap = []"
    by (simp add: check_time_gaps_def)
  moreover have "check_time_gaps [x] max_gap = [[x]]"
    by (simp add: check_time_gaps_def)
  ultimately show ?thesis
    using check_time_gaps_groups[of segments max_gap] check_time_gaps_example by blast
qed

section \<open>Properties of the split point\<close>

lemma max_key_upt_Suc:
  assumes "a < b"
  shows "max_key key [a..<Suc b] d =
           (if key (max_key key [a..<b] d) < key b then b else max_key key [a..<b] d)"
proof -
  have 1: "[a..<Suc b] = a # ([Suc a..<b] @ [b])"
    using assms by (simp add: upt_conv_Cons)
  have 2: "[a..<b] = a # [Suc a..<b]"
    using assms by (simp add: upt_conv_Cons)
  show ?thesis unfolding 1 2 by simp
qed

lemma max_key_upt:
  "a < b \<Longrightarrow>
     a \<le> max_key key [a..<b] d \<and> max_key key [a..<b] d < b
     \<and> (\<forall>i. a \<le> i \<and> i < b \<longrightarrow> key i \<le> key (max_key key [a..<b] d))
     \<and> (\<forall>i. a \<le> i \<and> i < max_key key [a..<b] d \<longrightarrow> key i < key (max_key key [a..<b] d))"
proof (induction b)
  case 0
  then show ?case by simp
next
  case (Suc b)
  show ?case
  proof (cases "a < b")
    case False
    with Suc.prems have "b = a" by simp
    then show ?thesis by (auto simp: upt_conv_Cons le_less_Suc_eq)
  next
    case True
    note ih = Suc.IH[OF True]
    let ?k = "max_key key [a..<b] d"
    show ?thesis
    proof (cases "key ?k < key b")
      case True
      have eq: "max_key key [a..<Suc b] d = b"
        using max_key_upt_Suc[OF \<open>a < b\<close>, of key d] True by simp
      have "\<forall>i. a \<le> i \<and> i < b \<longrightarrow> key i < key b"
        using ih True by (meson le_less_trans)
      then show ?thesis
        unfolding eq using \<open>a < b\<close> by (auto simp: less_Suc_eq)
    next
      case False
      have eq: "max_key key [a..<Suc b] d = ?k"
        using max_key_upt_Suc[OF \<open>a < b\<close>, of key d] False by simp
      show ?thesis
        unfolding eq using ih False by (auto simp: less_Suc_eq)
    qed
  qed
qed

lemma max_key_increasing:
  assumes "a < b" "\<forall>i j. a \<le> i \<and> i < j \<and> j < b \<longrightarrow> key i < key j"
  shows "max_key key [a..<b] d = b - 1"
proof (rule ccontr)
  let ?k = "max_key key [a..<b] d"
  assume "?k \<noteq> b - 1"
  with max_key_upt[OF assms(1), of key d] have k: "a \<le> ?k" "?k < b - 1"
    by auto
  with assms(2) have "key ?k < key (b - 1)" by auto
  moreover have "key (b - 1) \<le> key ?k"
    using max_key_upt[OF assms(1), of key d] assms(1) by auto
  ultimately show False by simp
qed

lemma middle_range_linear: "2 \<le> (n::nat) \<Longrightarrow> 6 * d \<le> n \<Longrightarrow> d * 6 + 6 \<le> 5 * n"
  by arith

lemma middle_range_nonempty: "2 \<le> (n::nat) \<Longrightarrow> n div 6 < 5 * n div 6"
proof -
  assume n: "2 \<le> n"
  have "6 * (n div 6) \<le> n" by simp
  with n have "(n div 6) * 6 + 6 \<le> 5 * n" by (rule middle_range_linear)
  then have "n div 6 + 1 \<le> 5 * n div 6"
    by (simp add: less_eq_div_iff_mult_less_eq)
  then show ?thesis by simp
qed

lemma middle_range_top: "2 \<le> (n::nat) \<Longrightarrow> 5 * n div 6 \<le> n - 1"
proof -
  assume n: "2 \<le> n"
  then have "5 * n < n * 6" by simp
  then have "5 * n div 6 < n" by (simp add: div_less_iff_less_mult)
  then show ?thesis by simp
qed

lemma split_long_segment_recursive_case:
  "MAX_WORD_COUNT < count_words merged_text \<Longrightarrow> length segs_to_merge \<noteq> 1 \<Longrightarrow>
   split_long_segment MAX_WORD_COUNT (Suc depth) merged_text segs_to_merge =
     (case split_long_segment MAX_WORD_COUNT depth
             (concat (map seg_text (take (split_index segs_to_merge + 1) segs_to_merge)))
             (take (split_index segs_to_merge + 1) segs_to_merge) of
        Inl e \<Rightarrow> Inl e
      | Inr first_result \<Rightarrow>
          (case split_long_segment MAX_WORD_COUNT depth
                  (concat (map seg_text (drop (split_index segs_to_merge + 1) segs_to_merge)))
                  (drop (split_index segs_to_merge + 1) segs_to_merge) of
             Inl e \<Rightarrow> Inl e
           | Inr second_result \<Rightarrow> Inr (first_result @ second_result)))"
  by (simp add: Let_def cong: sum.case_cong)

text \<open>
  With three fragments or more the split index leaves a fragment on either side, so that
  both recursive calls receive fewer fragments than their caller.
\<close>

lemma split_index_below:
  assumes "3 \<le> length segs_to_merge"
  shows "split_index segs_to_merge + 1 < length segs_to_merge"
proof -
  let ?n = "length segs_to_merge"
  have n2: "2 \<le> ?n" using assms by simp
  show ?thesis
  proof (cases "all_equal (map (gap_after segs_to_merge) [0..<?n - 1])")
    case True
    then have "split_index segs_to_merge = ?n div 2"
      by (simp add: split_index_def)
    with assms show ?thesis by simp
  next
    case False
    then have "split_index segs_to_merge
        = max_key (gap_after segs_to_merge) [?n div 6..<5 * ?n div 6] (?n div 2)"
      by (simp add: split_index_def Let_def)
    with max_key_upt[OF middle_range_nonempty[OF n2]] middle_range_top[OF n2]
    have "split_index segs_to_merge < ?n - 1"
      by (metis less_le_trans)
    then show ?thesis by simp
  qed
qed

lemma all_equal_gaps:
  "all_equal (map (gap_after segs_to_merge) [0..<m]) =
     (\<forall>i < m. \<bar>gap_after segs_to_merge i - gap_after segs_to_merge 0\<bar>
                 < 4722366482869645 / 2 ^ 72)"
proof (cases m)
  case 0
  then show ?thesis by (simp add: all_equal_def)
next
  case (Suc k)
  then have "0 < m" by simp
  then have "map (gap_after segs_to_merge) [0..<m] ! 0 = gap_after segs_to_merge 0"
    by (simp only: nth_map_upt add_0 minus_nat.diff_0)
  then show ?thesis
    by (auto simp: all_equal_def list_all_iff)
qed

lemma split_long_segment_base:
  "count_words merged_text \<le> MAX_WORD_COUNT \<Longrightarrow> segs_to_merge \<noteq> [] \<Longrightarrow>
   split_long_segment MAX_WORD_COUNT (Suc depth) merged_text segs_to_merge =
     Inr [\<lparr>seg_text = strip merged_text,
            start_time = start_time (segs_to_merge ! 0),
            end_time = end_time (last segs_to_merge)\<rparr>]"
  by simp

lemma split_long_segment_splits_at:
  assumes "split_index segs_to_merge + 1 < length segs_to_merge"
    and "MAX_WORD_COUNT < count_words merged_text"
    and "count_words (concat (map seg_text (take (split_index segs_to_merge + 1) segs_to_merge)))
           \<le> MAX_WORD_COUNT"
    and "count_words (concat (map seg_text (drop (split_index segs_to_merge + 1) segs_to_merge)))
           \<le> MAX_WORD_COUNT"
  shows "split_long_segment MAX_WORD_COUNT (Suc (Suc depth)) merged_text segs_to_merge =
     Inr [\<lparr>seg_text =
              strip (concat (map seg_text (take (split_index segs_to_merge + 1) segs_to_merge))),
            start_time = start_time (segs_to_merge ! 0),
            end_time = end_time (segs_to_merge ! split_index segs_to_merge)\<rparr>,
          \<lparr>seg_text =
              strip (concat (map seg_text (drop (split_index segs_to_merge + 1) segs_to_merge))),
            start_time = start_time (segs_to_merge ! (split_index segs_to_merge + 1)),
            end_time = end_time (last segs_to_merge)\<rparr>]"
proof -
  let ?k = "split_index segs_to_merge"
  let ?first = "take (?k + 1) segs_to_merge"
  let ?second = "drop (?k + 1) segs_to_merge"
  have ne: "?first \<noteq> []" "?second \<noteq> []" "length segs_to_merge \<noteq> 1"
    using assms(1) by auto
  have f0: "?first ! 0 = segs_to_merge ! 0"
    by simp
  have fl: "last ?first = segs_to_merge ! ?k"
    using assms(1) by (simp add: take_Suc_conv_app_nth)
  have s0: "?second ! 0 = segs_to_merge ! (?k + 1)"
    using assms(1) by simp
  have sl: "last ?second = last segs_to_merge"
    using assms(1) by simp
  have 1: "split_long_segment MAX_WORD_COUNT (Suc depth) (concat (map seg_text ?first)) ?first
      = Inr [\<lparr>seg_text = strip (concat (map seg_text ?first)),
              start_time = start_time (segs_to_merge ! 0),
              end_time = end_time (segs_to_merge ! ?k)\<rparr>]"
    using split_long_segment_base[OF assms(3) ne(1), of depth] by (simp only: f0 fl)
  have 2: "split_long_segment MAX_WORD_COUNT (Suc depth) (concat (map seg_text ?second)) ?second
      = Inr [\<lparr>seg_text = strip (concat (map seg_text ?second)),
              start_time = start_time (segs_to_merge ! (?k + 1)),
              end_time = end_time (last segs_to_merge)\<rparr>]"
    using split_long_segment_base[OF assms(4) ne(2), of depth] by (simp only: s0 sl)
  show ?thesis
    by (subst split_long_segment_recursive_case[OF assms(2) ne(3)]) (simp only: 1 2, simp)
qed

text \<open>
  C8. For a fragment list of length \<open>n \<ge> 2\<close> whose text exceeds the maximum word
  count, \<^verbatim>\<open>split_long_segment\<close> splits at \<open>split_index\<close>: it recurses on the
  fragments up to and including that index and on the fragments after it, and joins the
  two results; when both parts are within the maximum word count (and \<open>n \<ge> 3\<close>, so
  that neither part is empty) the result is two fragments, the first ending with the
  fragment at the split index and the second starting with the next one. If every gap
  differs from the first gap by less than the tolerance (the double \<^verbatim>\<open>1e-6\<close>, that
  is \<open>4722366482869645 / 2^72\<close>), the split index is \<open>n div 2\<close>. Otherwise it lies
  in the middle range from \<open>n div 6\<close> up to, but not including, \<open>5 * n div 6\<close>, the
  gap after it is maximal in that range, and every gap of the range before it is strictly
  smaller (the leftmost maximum); so for strictly increasing gaps it is the index of the
  single maximal gap of that range.
\<close>

theorem split_index_choice:
  assumes "n = length segs_to_merge" "2 \<le> n"
  shows
    "((\<forall>i < n - 1. \<bar>gap_after segs_to_merge i - gap_after segs_to_merge 0\<bar>
                       < 4722366482869645 / 2 ^ 72) \<longrightarrow>
        split_index segs_to_merge = n div 2)
     \<and> (\<not> (\<forall>i < n - 1. \<bar>gap_after segs_to_merge i - gap_after segs_to_merge 0\<bar>
                       < 4722366482869645 / 2 ^ 72) \<longrightarrow>
          n div 6 \<le> split_index segs_to_merge \<and> split_index segs_to_merge < 5 * n div 6
          \<and> (\<forall>i. n div 6 \<le> i \<and> i < 5 * n div 6 \<longrightarrow>
                 gap_after segs_to_merge i \<le> gap_after segs_to_merge (split_index segs_to_merge))
          \<and> (\<forall>i. n div 6 \<le> i \<and> i < split_index segs_to_merge \<longrightarrow>
                 gap_after segs_to_merge i < gap_after segs_to_merge (split_index segs_to_merge))
          \<and> ((\<forall>i j. i < j \<and> j < n - 1 \<longrightarrow>
                   gap_after segs_to_merge i < gap_after segs_to_merge j) \<longrightarrow>
               split_index segs_to_merge = 5 * n div 6 - 1
               \<and> (\<forall>i. n div 6 \<le> i \<and> i < 5 * n div 6 \<and> i \<noteq> split_index segs_to_merge \<longrightarrow>
                      gap_after segs_to_merge i
                        < gap_after segs_to_merge (split_index segs_to_merge))))
     \<and> (MAX_WORD_COUNT < count_words merged_text \<longrightarrow>
          split_long_segment MAX_WORD_COUNT (Suc depth) merged_text segs_to_merge =
            (case split_long_segment MAX_WORD_COUNT depth
                    (concat (map seg_text (take (split_index segs_to_merge + 1) segs_to_merge)))
                    (take (split_index segs_to_merge + 1) segs_to_merge) of
               Inl e \<Rightarrow> Inl e
             | Inr first_result \<Rightarrow>
                 (case split_long_segment MAX_WORD_COUNT depth
                         (concat (map seg_text (drop (split_index segs_to_merge + 1) segs_to_merge)))
                         (drop (split_index segs_to_merge + 1) segs_to_merge) of
                    Inl e \<Rightarrow> Inl e
                  | Inr second_result \<Rightarrow> Inr (first_result @ second_result))))
     \<and> (3 \<le> n \<and> MAX_WORD_COUNT < count_words merged_text
          \<and> count_words (concat (map seg_text (take (split_index segs_to_merge + 1) segs_to_merge)))
                \<le> MAX_WORD_COUNT
          \<and> count_words (concat (map seg_text (drop (split_index segs_to_merge + 1) segs_to_merge)))
                \<le> MAX_WORD_COUNT \<longrightarrow>
          split_long_segment MAX_WORD_COUNT (Suc (Suc depth)) merged_text segs_to_merge =
            Inr [\<lparr>seg_text = strip (concat (map seg_text
                                  (take (split_index segs_to_merge + 1) segs_to_merge))),
                   start_time = start_time (segs_to_merge ! 0),
                   end_time = end_time (segs_to_merge ! split_index segs_to_merge)\<rparr>,
                 \<lparr>seg_text = strip (concat (map seg_text
                                  (drop (split_index segs_to_merge + 1) segs_to_merge))),
                   start_time = start_time (segs_to_merge ! (split_index segs_to_merge + 1)),
                   end_time = end_time (last segs_to_merge)\<rparr>])"
proof -
  let ?key = "gap_after segs_to_merge"
  let ?k = "max_key ?key [n div 6..<5 * n div 6] (n div 2)"
  let ?eq = "\<forall>i < n - 1. \<bar>?key i - ?key 0\<bar> < 4722366482869645 / 2 ^ 72"
  have ae: "all_equal (map ?key [0..<n - 1]) = ?eq"
    by (rule all_equal_gaps)
  have range: "n div 6 < 5 * n div 6"
    using assms(2) by (rule middle_range_nonempty)
  have top: "5 * n div 6 \<le> n - 1"
    using assms(2) by (rule middle_range_top)
  note mk = max_key_upt[OF range, of ?key "n div 2"]
  have eq: "split_index segs_to_merge = n div 2" if ?eq
  proof -
    have "all_equal (map ?key [0..<n - 1])" unfolding ae by (rule that)
    then show ?thesis by (simp add: split_index_def assms(1))
  qed
  have ne: "split_index segs_to_merge = ?k" if "\<not> ?eq"
  proof -
    have "\<not> all_equal (map ?key [0..<n - 1])" unfolding ae by (rule that)
    then show ?thesis by (simp add: split_index_def assms(1) Let_def)
  qed
  have incr: "?k = 5 * n div 6 - 1
      \<and> (\<forall>i. n div 6 \<le> i \<and> i < 5 * n div 6 \<and> i \<noteq> ?k \<longrightarrow> ?key i < ?key ?k)"
    if mono: "\<forall>i j. i < j \<and> j < n - 1 \<longrightarrow> ?key i < ?key j"
  proof -
    have "\<forall>i j. n div 6 \<le> i \<and> i < j \<and> j < 5 * n div 6 \<longrightarrow> ?key i < ?key j"
      using mono top by auto
    from max_key_increasing[OF range this] have k: "?k = 5 * n div 6 - 1" .
    have "?key i < ?key ?k" if "n div 6 \<le> i" "i < 5 * n div 6" "i \<noteq> ?k" for i
    proof -
      from that(3) k have "i \<noteq> 5 * n div 6 - 1" by simp
      with that(2) have "i < 5 * n div 6 - 1" by linarith
      with k have "i < ?k" by simp
      with mk that(1) show ?thesis by blast
    qed
    with k show ?thesis by blast
  qed
  have middle: "n div 6 \<le> split_index segs_to_merge \<and> split_index segs_to_merge < 5 * n div 6
      \<and> (\<forall>i. n div 6 \<le> i \<and> i < 5 * n div 6 \<longrightarrow>
             ?key i \<le> ?key (split_index segs_to_merge))
      \<and> (\<forall>i. n div 6 \<le> i \<and> i < split_index segs_to_merge \<longrightarrow>
             ?key i < ?key (split_index segs_to_merge))
      \<and> ((\<forall>i j. i < j \<and> j < n - 1 \<longrightarrow> ?key i < ?key j) \<longrightarrow>
           split_index segs_to_merge = 5 * n div 6 - 1
           \<and> (\<forall>i. n div 6 \<le> i \<and> i < 5 * n div 6 \<and> i \<noteq> split_index segs_to_merge \<longrightarrow>
                  ?key i < ?key (split_index segs_to_merge)))"
    if "\<not> ?eq"
    unfolding ne[OF that] using mk incr by blast
  have rec: "split_long_segment MAX_WORD_COUNT (Suc depth) merged_text segs_to_merge =
        (case split_long_segment MAX_WORD_COUNT depth
                (concat (map seg_text (take (split_index segs_to_merge + 1) segs_to_merge)))
                (take (split_index segs_to_merge + 1) segs_to_merge) of
           Inl e \<Rightarrow> Inl e
         | Inr first_result \<Rightarrow>
             (case split_long_segment MAX_WORD_COUNT depth
                     (concat (map seg_text (drop (split_index segs_to_merge + 1) segs_to_merge)))
                     (drop (split_index segs_to_merge + 1) segs_to_merge) of
                Inl e \<Rightarrow> Inl e
              | Inr second_result \<Rightarrow> Inr (first_result @ second_result)))"
    if "MAX_WORD_COUNT < count_words merged_text"
    using that assms by (intro split_long_segment_recursive_case) simp_all
  have obs: "split_long_segment MAX_WORD_COUNT (Suc (Suc depth)) merged_text segs_to_merge =
        Inr [\<lparr>seg_text = strip (concat (map seg_text
                              (take (split_index segs_to_merge + 1) segs_to_merge))),
               start_time = start_time (segs_to_merge ! 0),
               end_time = end_time (segs_to_merge ! split_index segs_to_merge)\<rparr>,
             \<lparr>seg_text = strip (concat (map seg_text
                              (drop (split_index segs_to_merge + 1) segs_to_merge))),
               start_time = start_time (segs_to_merge ! (split_index segs_to_merge + 1)),
               end_time = end_time (last segs_to_merge)\<rparr>]"
    if "3 \<le> n" "MAX_WORD_COUNT < count_words merged_text"
      "count_words (concat (map seg_text (take (split_index segs_to_merge + 1) segs_to_merge)))
         \<le> MAX_WORD_COUNT"
      "count_words (concat (map seg_text (drop (split_index segs_to_merge + 1) segs_to_merge)))
         \<le> MAX_WORD_COUNT"
  proof -
    from that(1) assms(1) have "split_index segs_to_merge + 1 < length segs_to_merge"
      by (intro split_index_below) simp
    from split_long_segment_splits_at[OF this that(2,3,4)] show ?thesis .
  qed
  from eq middle rec obs show ?thesis by blast
qed

lemma example_increasing_gaps:
  "map (gap_after example_increasing) [0..<6] = [10, 20, 30, 40, 50, 60]"
  by (simp add: example_increasing_def gap_after_def upt_conv_Cons)

lemma example_uniform_gaps:
  "map (gap_after example_uniform) [0..<3] = [0, 0, 0]"
  by (simp add: example_uniform_def gap_after_def upt_conv_Cons)

lemma example_tolerance_gaps:
  "map (gap_after example_tolerance) [0..<4] = [0, 0, 0, 4722366482869645 / 2 ^ 72]"
  by (simp add: example_tolerance_def gap_after_def upt_conv_Cons)

lemma example_increasing_gap:
  "i < 6 \<Longrightarrow> gap_after example_increasing i = 10 * (rat_of_nat i + 1)"
proof -
  assume "i < 6"
  then consider "i = 0" | "i = 1" | "i = 2" | "i = 3" | "i = 4" | "i = 5"
    by linarith
  then show ?thesis
    by cases (simp_all add: example_increasing_def gap_after_def)
qed

lemma example_tolerance_gap:
  "gap_after example_tolerance 0 = 0" "gap_after example_tolerance 1 = 0"
  "gap_after example_tolerance 2 = 0"
  "gap_after example_tolerance 3 = 4722366482869645 / 2 ^ 72"
  by (simp_all add: example_tolerance_def gap_after_def)

lemma example_increasing_parts:
  "count_words ''a b c d e f g '' = 7"
  "count_words (concat (map seg_text (take (4 + 1) example_increasing))) = 5"
  "count_words (concat (map seg_text (drop (4 + 1) example_increasing))) = 2"
  "strip (concat (map seg_text (take (4 + 1) example_increasing))) = ''a b c d e''"
  "strip (concat (map seg_text (drop (4 + 1) example_increasing))) = ''f g''"
  by code_simp+

lemma example_increasing_times:
  "start_time (example_increasing ! 0) = 0" "end_time (example_increasing ! 4) = 500"
  "start_time (example_increasing ! (4 + 1)) = 550" "end_time (last example_increasing) = 700"
  by (simp_all add: example_increasing_def)

theorem split_index_choice_witness:
  "2 \<le> length example_increasing
   \<and> \<not> all_equal (map (gap_after example_increasing) [0..<6])
   \<and> split_index example_increasing = 4
   \<and> split_long_segment 5 1000 ''a b c d e f g '' example_increasing
       = Inr [\<lparr>seg_text = ''a b c d e'', start_time = 0, end_time = 500\<rparr>,
              \<lparr>seg_text = ''f g'', start_time = 550, end_time = 700\<rparr>]
   \<and> 2 \<le> length example_uniform
   \<and> all_equal (map (gap_after example_uniform) [0..<3])
   \<and> split_index example_uniform = 2
   \<and> 2 \<le> length example_tolerance
   \<and> \<not> all_equal (map (gap_after example_tolerance) [0..<4])
   \<and> split_index example_tolerance = 3"
proof -
  have len: "7 = length example_increasing" "(2::nat) \<le> 7"
    by (simp_all add: example_increasing_def)
  have ne: "\<not> all_equal (map (gap_after example_increasing) [0..<7 - 1])"
    by (simp add: example_increasing_gaps all_equal_def)
  have mono: "\<forall>i j. i < j \<and> j < 7 - 1 \<longrightarrow>
      gap_after example_increasing i < gap_after example_increasing j"
    by (auto simp: example_increasing_gap)
  note inc = split_index_choice[OF len, of 5 "''a b c d e f g ''" 998]
  have "split_index example_increasing = 5 * 7 div 6 - 1"
    using inc ne[unfolded all_equal_gaps] mono by blast
  then have 1: "split_index example_increasing = 4" by simp
  note obs = inc[THEN conjunct2, THEN conjunct2, THEN conjunct2, rule_format]
  have prem: "3 \<le> (7::nat) \<and> 5 < count_words ''a b c d e f g ''
      \<and> count_words (concat (map seg_text
            (take (split_index example_increasing + 1) example_increasing))) \<le> 5
      \<and> count_words (concat (map seg_text
            (drop (split_index example_increasing + 1) example_increasing))) \<le> 5"
    unfolding 1 example_increasing_parts by simp
  have depth: "(1000::nat) = Suc (Suc 998)" by simp
  have 3: "split_long_segment 5 1000 ''a b c d e f g '' example_increasing
       = Inr [\<lparr>seg_text = ''a b c d e'', start_time = 0, end_time = 500\<rparr>,
              \<lparr>seg_text = ''f g'', start_time = 550, end_time = 700\<rparr>]"
    using obs[OF prem]
    unfolding 1 example_increasing_parts example_increasing_times depth .
  have len': "4 = length example_uniform" "(2::nat) \<le> 4"
    by (simp_all add: example_uniform_def)
  have eq: "all_equal (map (gap_after example_uniform) [0..<4 - 1])"
    by (simp add: example_uniform_gaps all_equal_def)
  have "split_index example_uniform = 4 div 2"
    using split_index_choice[OF len'] eq[unfolded all_equal_gaps] by blast
  then have 2: "split_index example_uniform = 2" by simp
  have len'': "5 = length example_tolerance" "(2::nat) \<le> 5"
    by (simp_all add: example_tolerance_def)
  have net: "\<not> all_equal (map (gap_after example_tolerance) [0..<5 - 1])"
    by (simp add: example_tolerance_gaps all_equal_def)
  from split_index_choice[OF len''] net[unfolded all_equal_gaps]
  have k: "split_index example_tolerance < 5 * 5 div 6"
    and m: "\<forall>i. 5 div 6 \<le> i \<and> i < 5 * 5 div 6 \<longrightarrow>
          gap_after example_tolerance i
            \<le> gap_after example_tolerance (split_index example_tolerance)"
    by blast+
  from m have g3: "gap_after example_tolerance 3
      \<le> gap_after example_tolerance (split_index example_tolerance)"
    by simp
  from k have k4: "split_index example_tolerance < 4" by simp
  have 4: "split_index example_tolerance = 3"
  proof (rule ccontr)
    assume "split_index example_tolerance \<noteq> 3"
    with k4 consider "split_index example_tolerance = 0"
      | "split_index example_tolerance = 1" | "split_index example_tolerance = 2"
      by linarith
    then have "gap_after example_tolerance (split_index example_tolerance) = 0"
      by cases (simp_all only: example_tolerance_gap)
    with g3 show False
      by (simp add: example_tolerance_gap)
  qed
  from 1 2 3 4 ne eq net len len' len'' show ?thesis by simp
qed

lemma split_index_two: "split_index [a, b] = 1"
  by (simp add: split_index_def all_equal_def)

lemma split_long_segment_two_diverges:
  assumes "MAX_WORD_COUNT < count_words (seg_text a @ seg_text b)"
  shows "MAX_WORD_COUNT < count_words merged_text \<Longrightarrow>
         split_long_segment MAX_WORD_COUNT depth merged_text [a, b] = Inl RecursionError"
proof (induction depth arbitrary: merged_text)
  case 0
  show ?case by simp
next
  case (Suc depth)
  have "split_long_segment MAX_WORD_COUNT depth (seg_text a @ seg_text b) [a, b]
          = Inl RecursionError"
    using assms by (rule Suc.IH)
  then show ?case
    using Suc.prems by (simp add: split_index_two)
qed

text \<open>
  C2. \<^verbatim>\<open>split_long_segment\<close> does not terminate on every input. For two fragments
  whose text exceeds the maximum word count the only gap is equal to itself, so the split
  index is \<open>n div 2 = 1 = n - 1\<close>: the first recursive call receives both fragments
  again, and the second none. Whatever depth of recursion is allowed, the call ends in
  \<^verbatim>\<open>RecursionError\<close>.
\<close>

theorem split_long_segment_two_fragments:
  assumes "MAX_WORD_COUNT < count_words merged_text"
    and "MAX_WORD_COUNT < count_words (seg_text a @ seg_text b)"
  shows "split_index [a, b] = 1
     \<and> take (split_index [a, b] + 1) [a, b] = [a, b]
     \<and> drop (split_index [a, b] + 1) [a, b] = []
     \<and> split_long_segment MAX_WORD_COUNT depth merged_text [a, b] = Inl RecursionError"
  using split_long_segment_two_diverges[OF assms(2) assms(1)]
  by (simp add: split_index_two)

theorem split_long_segment_two_fragments_witness:
  "(3::nat) < count_words ''one two three four five six''
   \<and> split_long_segment 3 1000 ''one two three four five six''
        [\<lparr>seg_text = ''one two three '', start_time = 0, end_time = 900\<rparr>,
         \<lparr>seg_text = ''four five six'', start_time = 1000, end_time = 1900\<rparr>]
       = Inl RecursionError"
proof -
  have c: "(3::nat) < count_words ''one two three four five six''"
    by (simp add: count_words_six)
  have d: "(3::nat) < count_words
      (seg_text \<lparr>seg_text = ''one two three '', start_time = 0, end_time = 900\<rparr> @
       seg_text \<lparr>seg_text = ''four five six'', start_time = 1000, end_time = 1900\<rparr>)"
    by (simp add: count_words_six)
  from split_long_segment_two_fragments[OF c d, of 1000] c show ?thesis
    by blast
qed

section \<open>Properties of the aligner\<close>

lemma align_sentence_unmatched_first:
  assumes "fst (find_best (map seg_text asr_data) 0 30 sentence) < 1 / 2"
  shows "align_sentence MAX_WORD_COUNT depth asr_data init_state sentence = Inl UnboundLocalError"
  using assms
  by (auto simp: align_sentence_def init_state_def split: prod.splits option.splits)

text \<open>
  C1. An unmatched sentence is not always handled without failure. When the first
  sentence of the list is unmatched (its best ratio is below 0.5), the program reads
  \<^verbatim>\<open>end_seg_index\<close> before any assignment to it, and
  \<^verbatim>\<open>merge_segments_based_on_sentences\<close> raises \<^verbatim>\<open>UnboundLocalError\<close>
  instead of going on to the next sentence.
\<close>

theorem first_sentence_unmatched_raises:
  assumes "fst (find_best (map seg_text asr_data) 0 30 sentence) < 1 / 2"
  shows "merge_segments_based_on_sentences MAX_WORD_COUNT depth asr_data (sentence # sentences)
           = Inl UnboundLocalError"
  using align_sentence_unmatched_first[OF assms]
  by (simp add: merge_segments_based_on_sentences_def)

lemma find_best_hello_zzz:
  "find_best (map seg_text [\<lparr>seg_text = ''hello'', start_time = 0, end_time = 100\<rparr>]) 0 30 ''zzz''
     = (0, None, 0)"
  by code_simp

theorem first_sentence_unmatched_raises_witness:
  "fst (find_best (map seg_text [\<lparr>seg_text = ''hello'', start_time = 0, end_time = 100\<rparr>])
          0 30 ''zzz'') < 1 / 2
   \<and> merge_segments_based_on_sentences 16 1000
        [\<lparr>seg_text = ''hello'', start_time = 0, end_time = 100\<rparr>] [''zzz'', ''hello'']
       = Inl UnboundLocalError"
proof -
  have h: "fst (find_best (map seg_text [\<lparr>seg_text = ''hello'', start_time = 0, end_time = 100\<rparr>])
          0 30 ''zzz'') < 1 / 2"
    by (simp only: find_best_hello_zzz) simp
  from first_sentence_unmatched_raises[OF h, of 16 1000 "[''hello'']"] h show ?thesis
    by blast
qed

text \<open>
  A later unmatched sentence does not raise, but it does not move the cursor either:
  \<^verbatim>\<open>end_seg_index\<close> still holds the end of the last accepted range, one before the
  cursor.
\<close>

lemma align_sentence_unmatched_later:
  assumes "fst (find_best (map seg_text asr_data) (asr_index st) (max_shift st) sentence) < 1 / 2"
    and "end_seg_index st = Some e" "asr_index st = e + 1"
  shows "align_sentence MAX_WORD_COUNT depth asr_data st sentence
           = Inr (st\<lparr>max_shift := 100, asr_index := asr_index st\<rparr>)"
  using assms
  by (auto simp: align_sentence_def split: prod.splits option.splits)

lemma scenario_first_sentence:
  "find_best (map seg_text scenario) 0 30 ''the quick'' = (16 / 17, Some 0, 2)"
  by code_simp

lemma scenario_second_sentence:
  "find_best (map seg_text scenario) 2 30 ''fox jumps'' = (16 / 17, Some 2, 2)"
  by code_simp

lemma scenario_preprocessed:
  "preprocess_segments scenario =
     [\<lparr>seg_text = ''the '', start_time = 0, end_time = 100\<rparr>,
      \<lparr>seg_text = ''quick '', start_time = 100, end_time = 200\<rparr>,
      \<lparr>seg_text = ''fox '', start_time = 200, end_time = 2200\<rparr>,
      \<lparr>seg_text = ''jumps '', start_time = 2200, end_time = 2300\<rparr>]"
  by code_simp

lemma scenario_preprocessed_first_sentence:
  "find_best (map seg_text (preprocess_segments scenario)) 0 30 ''the quick'' = (1, Some 0, 2)"
  by code_simp

lemma scenario_preprocessed_second_sentence:
  "find_best (map seg_text (preprocess_segments scenario)) 2 30 ''fox jumps'' = (1, Some 2, 2)"
  by code_simp

lemma scenario_gaps:
  "check_time_gaps (take 2 scenario) MAX_GAP = [take 2 scenario]"
  "check_time_gaps (drop 2 scenario) MAX_GAP = [drop 2 scenario]"
  "check_time_gaps (take 2 (preprocess_segments scenario)) MAX_GAP
     = [take 2 (preprocess_segments scenario)]"
  "check_time_gaps (drop 2 (preprocess_segments scenario)) MAX_GAP
     = [drop 2 (preprocess_segments scenario)]"
  by code_simp+

lemma scenario_word_counts:
  "count_words ''Thequick'' = 1" "count_words ''foxjumps'' = 1"
  "count_words ''the quick '' = 2" "count_words ''fox jumps '' = 2"
  by code_simp+

text \<open>
  C7, as stated, fails: on the fragments as given the ratio of the first sentence is
  16/17, and the second sentence gives one fragment, not two, since its two fragments
  stay in one group.
\<close>

theorem scenario_counterexample:
  "merge_segments_based_on_sentences 16 1000 scenario [''the quick'', ''fox jumps'']
     = Inr [\<lparr>seg_text = ''Thequick'', start_time = 0, end_time = 200\<rparr>,
            \<lparr>seg_text = ''foxjumps'', start_time = 200, end_time = 2300\<rparr>]
   \<and> find_best (map seg_text scenario) 0 30 ''the quick'' = (16 / 17, Some 0, 2)
   \<and> check_time_gaps (drop 2 scenario) MAX_GAP = [drop 2 scenario]"
  by code_simp

lemma scenario_run:
  assumes "2 \<le> MAX_WORD_COUNT"
  shows "merge_segments_based_on_sentences MAX_WORD_COUNT depth scenario
           [''the quick'', ''fox jumps'']
         = Inr [\<lparr>seg_text = ''Thequick'', start_time = 0, end_time = 200\<rparr>,
                \<lparr>seg_text = ''foxjumps'', start_time = 200, end_time = 2300\<rparr>]"
proof -
  have 1: "align_sentence MAX_WORD_COUNT depth scenario init_state ''the quick''
      = Inr \<lparr>asr_index = 2, max_shift = 30, end_seg_index = Some (Suc 0),
             new_segments = [\<lparr>seg_text = ''Thequick'', start_time = 0, end_time = 200\<rparr>],
             ranges = [(0, Suc 0)]\<rparr>"
    using assms
    by (simp add: align_sentence_def init_state_def scenario_first_sentence)
       (simp add: scenario_def gap_defs scenario_word_counts)
  have 2: "align_sentence MAX_WORD_COUNT depth scenario
        \<lparr>asr_index = 2, max_shift = 30, end_seg_index = Some (Suc 0),
          new_segments = [\<lparr>seg_text = ''Thequick'', start_time = 0, end_time = 200\<rparr>],
          ranges = [(0, Suc 0)]\<rparr> ''fox jumps''
      = Inr \<lparr>asr_index = 4, max_shift = 30, end_seg_index = Some 3,
             new_segments = [\<lparr>seg_text = ''Thequick'', start_time = 0, end_time = 200\<rparr>,
                             \<lparr>seg_text = ''foxjumps'', start_time = 200, end_time = 2300\<rparr>],
             ranges = [(0, Suc 0), (2, 3)]\<rparr>"
    using assms
    by (simp add: align_sentence_def scenario_second_sentence)
       (simp add: scenario_def gap_defs scenario_word_counts)
  show ?thesis
    by (simp add: merge_segments_based_on_sentences_def 1 2)
qed

lemma scenario_preprocessed_run:
  assumes "2 \<le> MAX_WORD_COUNT"
  shows "merge_segments_based_on_sentences MAX_WORD_COUNT depth (preprocess_segments scenario)
           [''the quick'', ''fox jumps'']
         = Inr [\<lparr>seg_text = ''the quick '', start_time = 0, end_time = 200\<rparr>,
                \<lparr>seg_text = ''fox jumps '', start_time = 200, end_time = 2300\<rparr>]"
proof -
  have 1: "align_sentence MAX_WORD_COUNT depth (preprocess_segments scenario) init_state
        ''the quick''
      = Inr \<lparr>asr_index = 2, max_shift = 30, end_seg_index = Some (Suc 0),
             new_segments = [\<lparr>seg_text = ''the quick '', start_time = 0, end_time = 200\<rparr>],
             ranges = [(0, Suc 0)]\<rparr>"
    using assms
    by (simp add: align_sentence_def init_state_def scenario_preprocessed_first_sentence)
       (simp add: scenario_preprocessed gap_defs scenario_word_counts)
  have 2: "align_sentence MAX_WORD_COUNT depth (preprocess_segments scenario)
        \<lparr>asr_index = 2, max_shift = 30, end_seg_index = Some (Suc 0),
          new_segments = [\<lparr>seg_text = ''the quick '', start_time = 0, end_time = 200\<rparr>],
          ranges = [(0, Suc 0)]\<rparr> ''fox jumps''
      = Inr \<lparr>asr_index = 4, max_shift = 30, end_seg_index = Some 3,
             new_segments = [\<lparr>seg_text = ''the quick '', start_time = 0, end_time = 200\<rparr>,
                             \<lparr>seg_text = ''fox jumps '', start_time = 200, end_time = 2300\<rparr>],
             ranges = [(0, Suc 0), (2, 3)]\<rparr>"
    using assms
    by (simp add: align_sentence_def scenario_preprocessed_second_sentence)
       (simp add: scenario_preprocessed gap_defs scenario_word_counts)
  show ?thesis
    by (simp add: merge_segments_based_on_sentences_def 1 2)
qed

text \<open>
  C7 (as amended). For the fragments ("The",0,100), ("quick",100,200), ("fox",200,2200),
  ("jumps",2200,2300) and the sentences "the quick" and "fox jumps": the first sentence
  aligns to the first two fragments, with ratio 16/17 on the fragments as given and
  ratio 1 on the fragments as \<^verbatim>\<open>merge_segments\<close> pre-processes them, and gives one
  merged fragment spanning (0,200). The second aligns to the other two fragments; "fox"
  ends at 2200 ms, where "jumps" starts, so the gap between them is 0 ms, the two stay in
  one group, and the sentence gives one merged fragment spanning (200,2300).
\<close>

theorem scenario_alignment:
  assumes "2 \<le> MAX_WORD_COUNT"
  shows "find_best (map seg_text scenario) 0 30 ''the quick'' = (16 / 17, Some 0, 2)
     \<and> find_best (map seg_text scenario) 2 30 ''fox jumps'' = (16 / 17, Some 2, 2)
     \<and> start_time (scenario ! 3) - end_time (scenario ! 2) = 0
     \<and> check_time_gaps (drop 2 scenario) MAX_GAP = [drop 2 scenario]
     \<and> merge_segments_based_on_sentences MAX_WORD_COUNT depth scenario
           [''the quick'', ''fox jumps'']
         = Inr [\<lparr>seg_text = ''Thequick'', start_time = 0, end_time = 200\<rparr>,
                \<lparr>seg_text = ''foxjumps'', start_time = 200, end_time = 2300\<rparr>]
     \<and> find_best (map seg_text (preprocess_segments scenario)) 0 30 ''the quick''
         = (1, Some 0, 2)
     \<and> find_best (map seg_text (preprocess_segments scenario)) 2 30 ''fox jumps''
         = (1, Some 2, 2)
     \<and> merge_segments_based_on_sentences MAX_WORD_COUNT depth (preprocess_segments scenario)
           [''the quick'', ''fox jumps'']
         = Inr [\<lparr>seg_text = ''the quick '', start_time = 0, end_time = 200\<rparr>,
                \<lparr>seg_text = ''fox jumps '', start_time = 200, end_time = 2300\<rparr>]"
proof -
  have "start_time (scenario ! 3) - end_time (scenario ! 2) = 0"
    by (simp add: scenario_def)
  then show ?thesis
    using scenario_run[OF assms, of depth] scenario_preprocessed_run[OF assms, of depth]
      scenario_first_sentence scenario_second_sentence scenario_gaps(2)
      scenario_preprocessed_first_sentence scenario_preprocessed_second_sentence
    by blast
qed

theorem scenario_alignment_witness:
  "(2::nat) \<le> 16
   \<and> merge_segments_based_on_sentences 16 1000 scenario [''the quick'', ''fox jumps'']
       = Inr [\<lparr>seg_text = ''Thequick'', start_time = 0, end_time = 200\<rparr>,
              \<lparr>seg_text = ''foxjumps'', start_time = 200, end_time = 2300\<rparr>]
   \<and> merge_segments_based_on_sentences 16 1000 (preprocess_segments scenario)
         [''the quick'', ''fox jumps'']
       = Inr [\<lparr>seg_text = ''the quick '', start_time = 0, end_time = 200\<rparr>,
              \<lparr>seg_text = ''fox jumps '', start_time = 200, end_time = 2300\<rparr>]"
proof -
  have h: "(2::nat) \<le> 16" by simp
  from scenario_alignment[OF h, of 1000] h show ?thesis by blast
qed

section \<open>The accepted ranges\<close>

lemma search_starts_ok:
  assumes "window_ok lo n best" "1 \<le> window_size"
    and "\<forall>s \<in> set starts. lo \<le> s \<and> s + window_size \<le> n"
  shows "window_ok lo n (search_starts asr_texts sentence_proc window_size starts best)"
  using assms
proof (induction starts arbitrary: best)
  case Nil
  then show ?case by simp
next
  case (Cons start starts)
  obtain r p w where best: "best = (r, p, w)" by (cases best)
  let ?ratio = "SequenceMatcher_ratio sentence_proc
       (preprocess_text (concat (take window_size (drop start asr_texts))))"
  let ?best = "if r < ?ratio then (?ratio, Some start, window_size) else (r, p, w)"
  have ok: "window_ok lo n ?best"
    using Cons.prems by (simp add: window_ok_def best)
  have "window_ok lo n (search_starts asr_texts sentence_proc window_size starts ?best)"
    using Cons.prems by (intro Cons.IH[OF ok]) simp_all
  with ok show ?case
    by (auto simp: best Let_def split: if_splits)
qed

lemma search_windows_ok:
  assumes "window_ok cursor (length asr_texts) best" "\<forall>w \<in> set sizes. 1 \<le> w"
  shows "window_ok cursor (length asr_texts)
           (search_windows asr_texts sentence_proc cursor shift sizes best)"
  using assms
proof (induction sizes arbitrary: best)
  case Nil
  then show ?case by simp
next
  case (Cons window_size sizes)
  let ?max_start = "min (cursor + shift + 1) (length asr_texts + 1 - window_size)"
  let ?best = "search_starts asr_texts sentence_proc window_size [cursor..<?max_start] best"
  have ok: "window_ok cursor (length asr_texts) ?best"
    using Cons.prems by (intro search_starts_ok) auto
  have "window_ok cursor (length asr_texts)
          (search_windows asr_texts sentence_proc cursor shift sizes ?best)"
    using Cons.prems by (intro Cons.IH[OF ok]) simp
  with ok show ?case
    by (simp add: Let_def)
qed

lemma window_sizes_positive: "\<forall>w \<in> set (window_sizes word_count asr_len cursor). 1 \<le> w"
  by (auto simp: window_sizes_def Let_def)

lemma find_best_range:
  assumes "find_best asr_texts cursor shift sentence = (best_ratio, Some pos, window_size)"
  shows "cursor \<le> pos \<and> 1 \<le> window_size \<and> pos + window_size \<le> length asr_texts"
proof -
  have "window_ok cursor (length asr_texts)
          (find_best asr_texts cursor shift sentence)"
    unfolding find_best_def Let_def
    by (intro search_windows_ok window_sizes_positive) (simp add: window_ok_def)
  with assms show ?thesis by (simp add: window_ok_def)
qed

lemma ranges_ok_init: "ranges_ok n init_state"
  by (simp add: ranges_ok_def init_state_def)

lemma align_sentence_ranges_ok:
  assumes "align_sentence MAX_WORD_COUNT depth segments st sentence = Inr st'"
    and "ranges_ok (length segments) st"
  shows "ranges_ok (length segments) st'"
proof -
  obtain r p w where fb:
    "find_best (map seg_text segments) (asr_index st) (max_shift st) sentence = (r, p, w)"
    by (metis prod_cases3)
  show ?thesis
  proof (cases "\<exists>pos. p = Some pos \<and> 1 / 2 \<le> r")
    case True
    then obtain pos where p: "p = Some pos" and r: "1 / 2 \<le> r" by blast
    from find_best_range[OF fb[unfolded p]]
    have b: "asr_index st \<le> pos" "1 \<le> w" "pos + w \<le> length segments" by simp_all
    obtain segs' where st': "st' = st\<lparr>asr_index := pos + w - 1 + 1, max_shift := 30,
        end_seg_index := Some (pos + w - 1), new_segments := segs',
        ranges := ranges st @ [(pos, pos + w - 1)]\<rparr>"
      using assms(1) fb p r
      by (auto simp: align_sentence_def Let_def split: sum.splits)
    have old: "list_all (\<lambda>(s, e). s \<le> e \<and> e < pos) (ranges st)"
      using assms(2) b(1) by (auto simp: ranges_ok_def list_all_iff)
    have "list_all (\<lambda>(s, e). s \<le> e \<and> e < pos + w - 1 + 1) (ranges st @ [(pos, pos + w - 1)])"
      using old b by (auto simp: list_all_iff)
    moreover have "sorted_wrt (\<lambda>a b. snd a < fst b) (ranges st @ [(pos, pos + w - 1)])"
      using assms(2) old by (auto simp: ranges_ok_def sorted_wrt_append list_all_iff)
    ultimately show ?thesis
      using b by (simp add: ranges_ok_def st')
  next
    case False
    then obtain e where e: "end_seg_index st = Some e"
      and st': "st' = st\<lparr>max_shift := 100, asr_index := e + 1\<rparr>"
      using assms(1) fb
      by (cases p; cases "end_seg_index st")
         (auto simp: align_sentence_def split: if_splits)
    from assms(2) e have "asr_index st = e + 1" by (simp add: ranges_ok_def)
    with assms(2) e show ?thesis by (simp add: ranges_ok_def st')
  qed
qed

lemma align_loop_ranges_ok:
  "align_loop MAX_WORD_COUNT depth segments st sentences = Inr st' \<Longrightarrow>
   ranges_ok (length segments) st \<Longrightarrow> ranges_ok (length segments) st'"
proof (induction sentences arbitrary: st)
  case Nil
  then show ?case by simp
next
  case (Cons sentence sentences)
  then show ?case
    by (auto split: sum.splits dest: align_sentence_ranges_ok)
qed

lemma disjoint_ranges_cover_once:
  fixes rs :: "(nat \<times> nat) list"
  shows "sorted_wrt (\<lambda>a b. snd a < fst b) rs \<Longrightarrow> list_all (\<lambda>(s, e). s \<le> e) rs \<Longrightarrow>
   length (filter (\<lambda>(s, e). s \<le> i \<and> i \<le> e) rs) \<le> 1"
proof (induction rs)
  case Nil
  then show ?case by simp
next
  case (Cons r rs)
  show ?case
  proof (cases "fst r \<le> i \<and> i \<le> snd r")
    case True
    have later: "\<forall>x \<in> set rs. snd r < fst x"
      using Cons.prems(1) by simp
    have "\<not> (fst x \<le> i \<and> i \<le> snd x)" if "x \<in> set rs" for x
    proof -
      from later that have "snd r < fst x" by blast
      with True show ?thesis by linarith
    qed
    then have "filter (\<lambda>(s, e). s \<le> i \<and> i \<le> e) rs = []"
      by (auto simp: filter_empty_conv)
    with True show ?thesis by (cases r) simp
  next
    case False
    with Cons show ?thesis by (cases r) auto
  qed
qed

lemma skipping_run:
  "merge_segments_based_on_sentences 16 1000 skipping [''hello world'']
     = Inr [\<lparr>seg_text = ''hello world '', start_time = 100, end_time = 300\<rparr>]"
  by code_simp

lemma skipping_ranges: "accepted_ranges 16 1000 skipping [''hello world''] = [(1, 2)]"
  by code_simp

text \<open>
  C3, as stated, fails: the run below returns, its only accepted range is (1, 2), and
  fragment 0 lies in no range.
\<close>

theorem coverage_counterexample:
  "merge_segments_based_on_sentences 16 1000 skipping [''hello world'']
     = Inr [\<lparr>seg_text = ''hello world '', start_time = 100, end_time = 300\<rparr>]
   \<and> accepted_ranges 16 1000 skipping [''hello world''] = [(1, 2)]
   \<and> \<not> list_ex (\<lambda>(s, e). s \<le> 0 \<and> 0 \<le> e)
          (accepted_ranges 16 1000 skipping [''hello world''])"
  by (simp add: skipping_run skipping_ranges)

text \<open>
  C3 (as amended). In every run of \<^verbatim>\<open>merge_segments_based_on_sentences\<close> that
  returns, the accepted ranges are not empty, lie inside the fragment sequence and follow
  each other in strictly increasing order without overlap: no fragment belongs to two
  ranges. A fragment may belong to none: the window of a match may start after the
  cursor, and the sentences may end before the fragments do.
\<close>

theorem accepted_ranges_disjoint:
  assumes "merge_segments_based_on_sentences MAX_WORD_COUNT depth asr_data sentences = Inr out"
  shows "list_all (\<lambda>(s, e). s \<le> e \<and> e < length asr_data)
           (accepted_ranges MAX_WORD_COUNT depth asr_data sentences)
     \<and> sorted_wrt (\<lambda>a b. snd a < fst b)
           (accepted_ranges MAX_WORD_COUNT depth asr_data sentences)
     \<and> (\<forall>i. length (filter (\<lambda>(s, e). s \<le> i \<and> i \<le> e)
                  (accepted_ranges MAX_WORD_COUNT depth asr_data sentences)) \<le> 1)"
proof -
  from assms obtain st where
    run: "align_loop MAX_WORD_COUNT depth asr_data init_state sentences = Inr st"
    by (auto simp: merge_segments_based_on_sentences_def split: sum.splits)
  then have acc: "accepted_ranges MAX_WORD_COUNT depth asr_data sentences = ranges st"
    by (simp add: accepted_ranges_def)
  from align_loop_ranges_ok[OF run ranges_ok_init]
  have ok: "ranges_ok (length asr_data) st" .
  then have 1: "list_all (\<lambda>(s, e). s \<le> e \<and> e < length asr_data) (ranges st)"
    by (auto simp: ranges_ok_def list_all_iff)
  from ok have 2: "sorted_wrt (\<lambda>a b. snd a < fst b) (ranges st)"
    by (simp add: ranges_ok_def)
  from 1 have "list_all (\<lambda>(s, e). s \<le> e) (ranges st)"
    by (auto simp: list_all_iff)
  with 2 have 3: "\<forall>i. length (filter (\<lambda>(s, e). s \<le> i \<and> i \<le> e) (ranges st)) \<le> 1"
    by (blast intro: disjoint_ranges_cover_once)
  from 1 2 3 show ?thesis unfolding acc by blast
qed

theorem accepted_ranges_disjoint_witness:
  "merge_segments_based_on_sentences 16 1000 skipping [''hello world'']
     = Inr [\<lparr>seg_text = ''hello world '', start_time = 100, end_time = 300\<rparr>]
   \<and> sorted_wrt (\<lambda>a b. snd a < fst b) (accepted_ranges 16 1000 skipping [''hello world''])
   \<and> list_all (\<lambda>(s, e). s \<le> e \<and> e < length skipping)
         (accepted_ranges 16 1000 skipping [''hello world''])"
  using accepted_ranges_disjoint[OF skipping_run] skipping_run by blast

section \<open>Properties of the orchestrator\<close>

lemma determine_num_segments_ceiling:
  assumes "0 < threshold"
  shows "determine_num_segments word_count threshold
           = Inr (max 1 \<lceil>rat_of_int word_count / rat_of_int threshold\<rceil>)"
proof -
  have "\<lceil>rat_of_int word_count / rat_of_int threshold\<rceil> = - (- word_count div threshold)"
    by (rule ceiling_divide_eq_div)
  also have "\<dots> = (if word_count mod threshold = 0 then word_count div threshold
                    else word_count div threshold + 1)"
    using assms by (simp add: zdiv_zminus1_eq_if)
  finally have c: "\<lceil>rat_of_int word_count / rat_of_int threshold\<rceil>
      = (if word_count mod threshold = 0 then word_count div threshold
         else word_count div threshold + 1)" .
  have "0 \<le> word_count mod threshold"
    using assms by simp
  then have "(0 < word_count mod threshold) = (word_count mod threshold \<noteq> 0)"
    by linarith
  with assms show ?thesis
    by (simp add: determine_num_segments_def c Let_def)
qed

lemma preprocess_replicate:
  "preprocess_segments (replicate n \<lparr>seg_text = ''a'', start_time = s, end_time = e\<rparr>)
     = replicate n \<lparr>seg_text = ''a '', start_time = s, end_time = e\<rparr>"
proof -
  have "\<not> is_pure_punctuation ''a''" "letters_and_apostrophes (strip ''a'')" "lower ''a'' = ''a''"
    by code_simp+
  then show ?thesis
    by (induction n) simp_all
qed

text \<open>
  C4 (as amended). \<^verbatim>\<open>merge_segments\<close> passes \<^verbatim>\<open>SEGMENT_THRESHOLD = 500\<close> to
  \<^verbatim>\<open>determine_num_segments\<close>: for every input the number of chunks is the ceiling of
  the total word count divided by 500, and at least 1.
\<close>

theorem chunk_count:
  "merge_segments_num_segments asr_data
     = Inr (max 1 \<lceil>rat_of_nat (count_words (remove_newlines (to_txt asr_data))) / 500\<rceil>)"
proof -
  have "(0::int) < SEGMENT_THRESHOLD" by (simp add: SEGMENT_THRESHOLD_def)
  from determine_num_segments_ceiling[OF this] show ?thesis
    by (simp add: merge_segments_num_segments_def SEGMENT_THRESHOLD_def)
qed

text \<open>
  C4, as stated, fails: 501 fragments of one word each give 2 chunks, where the ceiling
  of 501 / 1000 is 1.
\<close>

theorem chunk_count_counterexample:
  "merge_segments_num_segments
     (preprocess_segments (replicate 501 \<lparr>seg_text = ''a'', start_time = 0, end_time = 100\<rparr>))
     = Inr 2
   \<and> count_words (remove_newlines (to_txt
       (preprocess_segments (replicate 501 \<lparr>seg_text = ''a'', start_time = 0, end_time = 100\<rparr>))))
     = 501
   \<and> max 1 \<lceil>(501::rat) / 1000\<rceil> = 1"
proof -
  have "\<lceil>(501::rat) / 1000\<rceil> = 1" by (simp add: ceiling_eq_iff)
  moreover have "determine_num_segments 501 500 = Inr 2"
    by (simp add: determine_num_segments_def)
  ultimately show ?thesis
    by (simp add: preprocess_replicate merge_segments_num_segments_def count_words_replicate
          SEGMENT_THRESHOLD_def)
qed

lemma merge_segments_empty_unfold:
  "merge_segments MAX_WORD_COUNT depth split_by_llm [] =
     ([], case merge_segments_based_on_sentences MAX_WORD_COUNT depth [] (split_by_llm 0 []) of
            Inl e \<Rightarrow> Inl e
          | Inr merged_asr_data \<Rightarrow> optimize_subtitles (sort_key start_time merged_asr_data))"
proof -
  have n: "merge_segments_num_segments [] = Inr 1"
    by code_simp
  have s: "split_asr_data [] 1 = Inr [[]]"
    by (simp add: split_asr_data_def)
  have t: "remove_newlines (to_txt []) = []"
    by (simp add: to_txt_def remove_newlines_def)
  show ?thesis
    by (simp add: merge_segments_def n s t enumerate_eq_zip)
qed

text \<open>
  C5, as stated, fails: on the empty sequence the sentences of the splitter reach the
  aligner, and with a splitter that returns a sentence the call does not return the input.
\<close>

theorem merge_segments_empty_counterexample:
  "merge_segments 16 1000 (\<lambda>i txt. [''hello'']) [] = ([], Inl UnboundLocalError)"
  by code_simp

text \<open>
  C5 (as amended). For an empty fragment sequence \<^verbatim>\<open>merge_segments\<close> has no early
  return: it forms one chunk, asks the sentence splitter for the sentences of the empty
  text, and runs the aligner and the stages after it on the empty sequence and those
  sentences. When the splitter returns no sentence the result is the empty sequence.
\<close>

theorem merge_segments_empty:
  "merge_segments MAX_WORD_COUNT depth split_by_llm [] =
     ([], case merge_segments_based_on_sentences MAX_WORD_COUNT depth [] (split_by_llm 0 []) of
            Inl e \<Rightarrow> Inl e
          | Inr merged_asr_data \<Rightarrow> optimize_subtitles (sort_key start_time merged_asr_data))
   \<and> (split_by_llm 0 [] = [] \<longrightarrow>
        merge_segments MAX_WORD_COUNT depth split_by_llm [] = ([], Inr []))"
proof -
  have "merge_segments MAX_WORD_COUNT depth split_by_llm [] = ([], Inr [])"
    if "split_by_llm 0 [] = []"
    using that
    by (simp add: merge_segments_empty_unfold merge_segments_based_on_sentences_def
          init_state_def optimize_subtitles_def)
  then show ?thesis
    using merge_segments_empty_unfold by blast
qed

theorem merge_segments_empty_witness:
  "(\<lambda>i txt. []) (0::nat) ([]::string) = ([]::string list)
   \<and> merge_segments 16 1000 (\<lambda>i txt. []) [] = ([], Inr [])"
proof -
  have h: "(\<lambda>i txt. []) (0::nat) ([]::string) = ([]::string list)" by simp
  from merge_segments_empty[of 16 1000 "\<lambda>i txt. []"] h
  have "merge_segments 16 1000 (\<lambda>i txt. []) [] = ([], Inr [])" by blast
  with h show ?thesis by blast
qed

section \<open>Properties of the optimizer\<close>

lemma merge_with_next_segment_middle:
  "merge_with_next_segment (pre @ x # y # post) (length pre) =
     pre @ \<lparr>seg_text = seg_text x @ seg_text y,
             start_time = min (start_time x) (start_time y),
             end_time = max (end_time x) (end_time y)\<rparr> # post"
  by (simp add: merge_with_next_segment_def nth_append)

lemma optimize_loop_step:
  "optimize_loop (Suc (length pre)) (pre @ x # y # post) =
     (if \<bar>start_time y - end_time x\<bar> < 300 \<and> count_words (seg_text y) < 5
         \<and> count_words (seg_text y) + count_words (seg_text x) \<le> 12
      then optimize_loop (length pre)
             (pre @ \<lparr>seg_text = seg_text x @ seg_text y,
                     start_time = min (start_time x) (start_time y),
                     end_time = max (end_time x) (end_time y)\<rparr> # post)
      else optimize_loop (length pre) (pre @ x # y # post))"
  by (simp add: merge_with_next_segment_middle nth_append Let_def)

lemma optimize_chain_general:
  assumes "start_time a \<le> start_time b" "start_time b \<le> start_time c"
    and "end_time a \<le> end_time b" "end_time b \<le> end_time c"
    and "\<bar>start_time b - end_time a\<bar> < 300" "\<bar>start_time c - end_time b\<bar> < 300"
    and "count_words (seg_text c) < 5"
    and "count_words (seg_text c) + count_words (seg_text b) \<le> 12"
    and "count_words (seg_text b @ seg_text c) < 5"
    and "count_words (seg_text b @ seg_text c) + count_words (seg_text a) \<le> 12"
  shows "optimize_loop (length pre + 2) (pre @ [a, b, c] @ post) =
           optimize_loop (length pre)
             (pre @ [\<lparr>seg_text = seg_text a @ seg_text b @ seg_text c,
                      start_time = start_time a, end_time = end_time c\<rparr>] @ post)"
proof -
  let ?bc = "\<lparr>seg_text = seg_text b @ seg_text c,
              start_time = start_time b, end_time = end_time c\<rparr>"
  have "optimize_loop (length pre + 2) (pre @ [a, b, c] @ post)
      = optimize_loop (Suc (length (pre @ [a]))) ((pre @ [a]) @ b # c # post)"
    by simp
  also have "\<dots> = optimize_loop (length (pre @ [a])) ((pre @ [a]) @ ?bc # post)"
    using assms(2,4,6,7,8) by (subst optimize_loop_step) (simp add: min_def max_def)
  also have "\<dots> = optimize_loop (Suc (length pre)) (pre @ a # ?bc # post)"
    by simp
  also have "\<dots> = optimize_loop (length pre)
      (pre @ \<lparr>seg_text = seg_text a @ seg_text b @ seg_text c,
              start_time = start_time a, end_time = end_time c\<rparr> # post)"
    using assms(1,3,4,5,9,10) by (subst optimize_loop_step) (simp add: min_def max_def)
  finally show ?thesis by simp
qed

text \<open>
  C6, as stated, fails: three fragments of three words each, with gaps of 0 ms and nine
  words in all, are left as two fragments, since the last two merged have six words.
\<close>

theorem optimize_chain_counterexample:
  "list_all (\<lambda>seg. count_words (seg_text seg) < 5) three_phrases
   \<and> \<bar>start_time (three_phrases ! 1) - end_time (three_phrases ! 0)\<bar> < 300
   \<and> \<bar>start_time (three_phrases ! 2) - end_time (three_phrases ! 1)\<bar> < 300
   \<and> sum_list (map (\<lambda>seg. count_words (seg_text seg)) three_phrases) \<le> 12
   \<and> optimize_subtitles three_phrases
       = Inr [\<lparr>seg_text = ''a b c '', start_time = 0, end_time = 100\<rparr>,
              \<lparr>seg_text = ''d e f g h i '', start_time = 100, end_time = 300\<rparr>]"
  by code_simp

text \<open>
  C6 (as amended). \<^verbatim>\<open>optimize_subtitles\<close> scans from the end and tests the word
  count of the current fragment, which after a merge is the merged one. Three consecutive
  fragments in chronological order, with both time gaps under 300 ms, whose last fragment
  has fewer than 5 words, whose last two fragments merged still have fewer than 5 words,
  and whose merged word counts are at most 12, are collapsed into one fragment from the
  first fragment's start to the last fragment's end when the scan reaches them; the scan
  then goes on with the fragments before them. A sequence of just these three fragments
  becomes that one fragment.
\<close>

theorem optimize_chain:
  assumes "start_time a \<le> start_time b" "start_time b \<le> start_time c"
    and "end_time a \<le> end_time b" "end_time b \<le> end_time c"
    and "\<bar>start_time b - end_time a\<bar> < 300" "\<bar>start_time c - end_time b\<bar> < 300"
    and "count_words (seg_text c) < 5"
    and "count_words (seg_text c) + count_words (seg_text b) \<le> 12"
    and "count_words (seg_text b @ seg_text c) < 5"
    and "count_words (seg_text b @ seg_text c) + count_words (seg_text a) \<le> 12"
  shows "optimize_loop (length pre + 2) (pre @ [a, b, c] @ post) =
           optimize_loop (length pre)
             (pre @ [\<lparr>seg_text = seg_text a @ seg_text b @ seg_text c,
                      start_time = start_time a, end_time = end_time c\<rparr>] @ post)
     \<and> optimize_subtitles [a, b, c]
           = Inr [\<lparr>seg_text = seg_text a @ seg_text b @ seg_text c,
                   start_time = start_time a, end_time = end_time c\<rparr>]"
proof -
  have "optimize_subtitles [a, b, c] = optimize_loop (length ([] :: ASRData) + 2) ([] @ [a, b, c] @ [])"
    by (simp add: optimize_subtitles_def)
  also have "\<dots> = optimize_loop (length ([] :: ASRData))
      ([] @ [\<lparr>seg_text = seg_text a @ seg_text b @ seg_text c,
               start_time = start_time a, end_time = end_time c\<rparr>] @ [])"
    using assms by (rule optimize_chain_general)
  finally have "optimize_subtitles [a, b, c]
      = Inr [\<lparr>seg_text = seg_text a @ seg_text b @ seg_text c,
              start_time = start_time a, end_time = end_time c\<rparr>]"
    by simp
  with optimize_chain_general[OF assms, of pre post] show ?thesis
    by blast
qed

theorem optimize_chain_witness:
  "optimize_subtitles
     [\<lparr>seg_text = ''a '', start_time = 0, end_time = 100\<rparr>,
      \<lparr>seg_text = ''b '', start_time = 100, end_time = 200\<rparr>,
      \<lparr>seg_text = ''c '', start_time = 200, end_time = 300\<rparr>]
   = Inr [\<lparr>seg_text = ''a b c '', start_time = 0, end_time = 300\<rparr>]"
proof -
  have c: "count_words ''a '' = 1" "count_words ''b '' = 1" "count_words ''c '' = 1"
    "count_words ''b c '' = 2"
    by code_simp+
  show ?thesis
    using optimize_chain[of "\<lparr>seg_text = ''a '', start_time = 0, end_time = 100\<rparr>"
        "\<lparr>seg_text = ''b '', start_time = 100, end_time = 200\<rparr>"
        "\<lparr>seg_text = ''c '', start_time = 200, end_time = 300\<rparr>"]
    by (simp add: c)
qed

section \<open>Properties of the pre-processing of the input\<close>









end
